theory Spec2Isabelle
  imports Main "HOL-Library.Word" "HOL-Library.AList"
begin

section \<open>Data model\<close>

text \<open>
  The header \<^verbatim>\<open>solution.h\<close> defines the class template \<^verbatim>\<open>intrusive_ref_counter\<close>
  (one private field, \<^verbatim>\<open>mutable std::atomic<size_t> ref_counter\<close>), the free functions
  \<^verbatim>\<open>intrusive_ptr_add_ref\<close> and \<^verbatim>\<open>intrusive_ptr_release\<close>, and the class template
  \<^verbatim>\<open>intrusive_ptr\<close> (one private field, \<^verbatim>\<open>T* ptr\<close>).

  Machine integers: \<^verbatim>\<open>size_t\<close> is taken as 64 bits and \<^verbatim>\<open>unsigned int\<close> as 32 bits (the
  LP64 data model); arithmetic on them wraps around. A raw pointer is \<open>None\<close>
  (\<^verbatim>\<open>nullptr\<close>) or \<open>Some a\<close> for an address \<open>a\<close>. The embedding is sequential: one
  atomic read-modify-write is one step.
\<close>

type_synonym size_t = "64 word"
type_synonym uint = "32 word"
type_synonym addr = nat
type_synonym rawptr = "addr option"
type_synonym hid = nat
type_synonym cls = nat

text \<open>
  The classes of an object: \<open>derived\<close> is the template argument of its
  \<^verbatim>\<open>intrusive_ref_counter<Derived>\<close> base, \<open>most_derived\<close> the class of the complete
  object. For \<^verbatim>\<open>struct B : intrusive_ref_counter<B> {}; struct L : B {};\<close> an object
  made by \<^verbatim>\<open>new L\<close> has \<open>derived\<close> \<^verbatim>\<open>B\<close> and \<open>most_derived\<close> \<^verbatim>\<open>L\<close>.
\<close>

record object_type =
  derived :: cls
  most_derived :: cls

record intrusive_ref_counter =
  ref_counter :: size_t

text \<open>
  What the sequential program can do wrong: use a pointer to no live object
  (never allocated, or already deleted), fail the \<^verbatim>\<open>assert\<close> of a dereference, flow
  off the end of a function that returns a value (undefined behaviour), name a handle
  object that does not exist, construct a handle or allocate an object where one
  already lives, or give away a reference through a raw pointer that the caller does
  not hold.
\<close>

datatype error = InvalidPointer | AssertionFailed | MissingReturn | NoSuchHandle
  | HandleExists | ObjectExists | NotOwned

text \<open>The calls of the two bridging functions are logged, in order, with their argument.\<close>

datatype event = AddRef addr | Release addr

text \<open>
  The store: the live reference-counted objects by address, the live handle objects by
  location (an association list with distinct keys, so that the handles that hold a
  given pointer can be counted), the log of calls, the classes of the object that is
  allocated at each address, and the \<^verbatim>\<open>delete\<close> expressions evaluated so far, each with
  its address and the class it deletes through.
\<close>

record state =
  objs :: "addr \<Rightarrow> intrusive_ref_counter option"
  handles :: "(hid \<times> rawptr) list"
  trace :: "event list"
  classes :: "addr \<Rightarrow> object_type"
  deleted :: "(addr \<times> cls) list"

definition bind :: "error + 'a \<Rightarrow> ('a \<Rightarrow> error + 'b) \<Rightarrow> error + 'b" where
  "bind m f = (case m of Inl e \<Rightarrow> Inl e | Inr x \<Rightarrow> f x)"

section \<open>The counter: \<^verbatim>\<open>intrusive_ref_counter\<close>\<close>

text \<open>\<^verbatim>\<open>intrusive_ref_counter() noexcept : ref_counter(0) {}\<close>\<close>

definition intrusive_ref_counter_default :: intrusive_ref_counter where
  "intrusive_ref_counter_default = \<lparr>ref_counter = 0\<rparr>"

text \<open>\<^verbatim>\<open>intrusive_ref_counter(const intrusive_ref_counter& v) noexcept : ref_counter(0) {}\<close>\<close>

definition intrusive_ref_counter_copy :: "intrusive_ref_counter \<Rightarrow> intrusive_ref_counter" where
  "intrusive_ref_counter_copy v = \<lparr>ref_counter = 0\<rparr>"

text \<open>
  \<^verbatim>\<open>intrusive_ref_counter& operator=(const intrusive_ref_counter& v) noexcept {}\<close>:
  the body is empty, so no statement touches the target's field, and control flows off
  the end of a function whose return type is a reference: every call has undefined
  behaviour, the error \<open>MissingReturn\<close> here. The first argument is the target.
\<close>

definition intrusive_ref_counter_assign ::
  "intrusive_ref_counter \<Rightarrow> intrusive_ref_counter \<Rightarrow> error + intrusive_ref_counter" where
  "intrusive_ref_counter_assign this v = Inl MissingReturn"

text \<open>
  \<^verbatim>\<open>unsigned int use_count() const\<close> returns \<^verbatim>\<open>ref_counter.load(...)\<close>: the \<^verbatim>\<open>size_t\<close> is
  converted to \<^verbatim>\<open>unsigned int\<close>, which keeps its low 32 bits.
\<close>

definition use_count :: "intrusive_ref_counter \<Rightarrow> uint" where
  "use_count c = ucast (ref_counter c)"

section \<open>The bridging functions\<close>

text \<open>
  \<^verbatim>\<open>fetch_add(1)\<close> and \<^verbatim>\<open>fetch_sub(1)\<close> on the counter of the object at \<open>p\<close>: the new value
  is stored and the old one returned. On a pointer to no live object the behaviour is
  undefined in the source: an error here.
\<close>

definition fetch_add :: "addr \<Rightarrow> state \<Rightarrow> error + (size_t \<times> state)" where
  "fetch_add p s =
     (case objs s p of
        None \<Rightarrow> Inl InvalidPointer
      | Some c \<Rightarrow>
          Inr (ref_counter c, s\<lparr>objs := (objs s)(p \<mapsto> c\<lparr>ref_counter := ref_counter c + 1\<rparr>)\<rparr>))"

definition fetch_sub :: "addr \<Rightarrow> state \<Rightarrow> error + (size_t \<times> state)" where
  "fetch_sub p s =
     (case objs s p of
        None \<Rightarrow> Inl InvalidPointer
      | Some c \<Rightarrow>
          Inr (ref_counter c, s\<lparr>objs := (objs s)(p \<mapsto> c\<lparr>ref_counter := ref_counter c - 1\<rparr>)\<rparr>))"

definition log_event :: "event \<Rightarrow> state \<Rightarrow> state" where
  "log_event e s = s\<lparr>trace := trace s @ [e]\<rparr>"

text \<open>
  \<^verbatim>\<open>delete static_cast<const Derived*>(p)\<close>, with \<^verbatim>\<open>Derived\<close> the template argument of
  the \<^verbatim>\<open>intrusive_ref_counter<Derived>\<close> that \<open>p\<close> points to: the object at \<open>p\<close> is
  no longer live, and it has been deleted through the class \<^verbatim>\<open>Derived\<close>.
\<close>

definition delete_obj :: "addr \<Rightarrow> state \<Rightarrow> state" where
  "delete_obj p s =
     s\<lparr>objs := (objs s)(p := None), deleted := deleted s @ [(p, derived (classes s p))]\<rparr>"

text \<open>\<^verbatim>\<open>p->ref_counter.fetch_add(1, std::memory_order_acq_rel);\<close>\<close>

definition intrusive_ptr_add_ref :: "addr \<Rightarrow> state \<Rightarrow> error + state" where
  "intrusive_ptr_add_ref p s =
     bind (fetch_add p (log_event (AddRef p) s)) (\<lambda>(old, s'). Inr s')"

text \<open>
  \<^verbatim>\<open>if (p->ref_counter.fetch_sub(1, std::memory_order_acq_rel) == 1) { delete ...; }\<close>
\<close>

definition intrusive_ptr_release :: "addr \<Rightarrow> state \<Rightarrow> error + state" where
  "intrusive_ptr_release p s =
     bind (fetch_sub p (log_event (Release p) s))
       (\<lambda>(old, s'). if old = 1 then Inr (delete_obj p s') else Inr s')"

section \<open>The handle: \<^verbatim>\<open>intrusive_ptr\<close>\<close>

text \<open>
  A handle object that lives at a location \<open>h\<close> is an entry of \<open>handles\<close>; its \<^verbatim>\<open>ptr\<close>
  field is read by \<open>lookup\<close> and written by \<open>store\<close>. A temporary handle (the
  \<^verbatim>\<open>intrusive_ptr(...)\<close> of the copy-and-swap idiom) is carried as the value of its
  \<^verbatim>\<open>ptr\<close> field.
\<close>

definition lookup :: "hid \<Rightarrow> state \<Rightarrow> error + rawptr" where
  "lookup h s = (case map_of (handles s) h of None \<Rightarrow> Inl NoSuchHandle | Some p \<Rightarrow> Inr p)"

definition store :: "hid \<Rightarrow> rawptr \<Rightarrow> state \<Rightarrow> state" where
  "store h p s = s\<lparr>handles := AList.update h p (handles s)\<rparr>"

text \<open>A constructor has built a handle with field \<open>p\<close>; it is placed at the location \<open>h\<close>.\<close>

definition place :: "hid \<Rightarrow> rawptr \<Rightarrow> state \<Rightarrow> error + state" where
  "place h p s = (if map_of (handles s) h \<noteq> None then Inl HandleExists else Inr (store h p s))"

text \<open>
  \<^verbatim>\<open>intrusive_ptr(T* p, bool add_ref = true) : ptr(p)
  { if (p != nullptr && add_ref) { intrusive_ptr_add_ref(p); } }\<close>
\<close>

definition ctor_raw :: "rawptr \<Rightarrow> bool \<Rightarrow> state \<Rightarrow> error + (rawptr \<times> state)" where
  "ctor_raw p add_ref s =
     (if p \<noteq> None \<and> add_ref
      then bind (intrusive_ptr_add_ref (the p) s) (\<lambda>s'. Inr (p, s'))
      else Inr (p, s))"

text \<open>
  \<^verbatim>\<open>intrusive_ptr(intrusive_ptr const& r) : ptr(r.ptr)
  { if (ptr != nullptr) { intrusive_ptr_add_ref(ptr); } }\<close>
  and the converting copy constructor, which differs by a \<^verbatim>\<open>static_cast\<close> only.
\<close>

definition ctor_copy :: "hid \<Rightarrow> state \<Rightarrow> error + (rawptr \<times> state)" where
  "ctor_copy r s =
     bind (lookup r s) (\<lambda>p.
       if p \<noteq> None
       then bind (intrusive_ptr_add_ref (the p) s) (\<lambda>s'. Inr (p, s'))
       else Inr (p, s))"

text \<open>
  \<^verbatim>\<open>intrusive_ptr(intrusive_ptr&& r) : ptr(r.ptr) { r.ptr = nullptr; }\<close>
  and the converting move constructor.
\<close>

definition ctor_move :: "hid \<Rightarrow> state \<Rightarrow> error + (rawptr \<times> state)" where
  "ctor_move r s = bind (lookup r s) (\<lambda>p. Inr (p, store r None s))"

text \<open>\<^verbatim>\<open>~intrusive_ptr() { if (ptr != nullptr) { intrusive_ptr_release(ptr); } }\<close>\<close>

definition dtor :: "rawptr \<Rightarrow> state \<Rightarrow> error + state" where
  "dtor p s = (if p \<noteq> None then intrusive_ptr_release (the p) s else Inr s)"

text \<open>
  \<^verbatim>\<open>void swap(intrusive_ptr& b) noexcept { std::swap(ptr, b.ptr); }\<close>, called on a
  temporary with field \<open>tmp\<close> and \<open>b\<close> the handle at \<open>this\<close>: the temporary's new
  field is returned.
\<close>

definition swap_tmp :: "rawptr \<Rightarrow> hid \<Rightarrow> state \<Rightarrow> error + (rawptr \<times> state)" where
  "swap_tmp tmp this s = bind (lookup this s) (\<lambda>old. Inr (old, store this tmp s))"

text \<open>
  The statement \<^verbatim>\<open>intrusive_ptr(...).swap(*this);\<close>: the temporary is swapped with
  \<^verbatim>\<open>*this\<close> and destroyed at the end of the statement.
\<close>

definition swap_and_destroy :: "hid \<Rightarrow> rawptr \<times> state \<Rightarrow> error + state" where
  "swap_and_destroy this ts =
     bind (swap_tmp (fst ts) this (snd ts)) (\<lambda>(tmp', s'). dtor tmp' s')"

text \<open>
  \<^verbatim>\<open>intrusive_ptr& operator=(intrusive_ptr const& r)
  { if (this != &r) { intrusive_ptr(r).swap(*this); } return *this; }\<close>
\<close>

definition assign_copy :: "hid \<Rightarrow> hid \<Rightarrow> state \<Rightarrow> error + state" where
  "assign_copy this r s =
     bind (lookup this s) (\<lambda>_. bind (lookup r s) (\<lambda>_.
       if this \<noteq> r then bind (ctor_copy r s) (swap_and_destroy this) else Inr s))"

text \<open>
  The converting \<^verbatim>\<open>operator=(intrusive_ptr<Y> const& r)\<close>:
  \<^verbatim>\<open>{ intrusive_ptr(r).swap(*this); return *this; }\<close>, with no test of \<^verbatim>\<open>this\<close>.
\<close>

definition assign_copy_conv :: "hid \<Rightarrow> hid \<Rightarrow> state \<Rightarrow> error + state" where
  "assign_copy_conv this r s =
     bind (lookup this s) (\<lambda>_. bind (ctor_copy r s) (swap_and_destroy this))"

text \<open>
  \<^verbatim>\<open>intrusive_ptr& operator=(T* r)
  { if (ptr != r) { intrusive_ptr(r).swap(*this); } return *this; }\<close>
\<close>

definition assign_raw :: "hid \<Rightarrow> rawptr \<Rightarrow> state \<Rightarrow> error + state" where
  "assign_raw this r s =
     bind (lookup this s) (\<lambda>ptr.
       if ptr \<noteq> r then bind (ctor_raw r True s) (swap_and_destroy this) else Inr s)"

text \<open>
  \<^verbatim>\<open>intrusive_ptr& operator=(intrusive_ptr&& r)
  { if (this != &r) { intrusive_ptr(std::move(r)).swap(*this); } return *this; }\<close>
\<close>

definition assign_move :: "hid \<Rightarrow> hid \<Rightarrow> state \<Rightarrow> error + state" where
  "assign_move this r s =
     bind (lookup this s) (\<lambda>_. bind (lookup r s) (\<lambda>_.
       if this \<noteq> r then bind (ctor_move r s) (swap_and_destroy this) else Inr s))"

text \<open>
  The converting \<^verbatim>\<open>operator=(intrusive_ptr<Y>&& r)\<close>:
  \<^verbatim>\<open>{ intrusive_ptr(std::move(r)).swap(*this); return *this; }\<close>
\<close>

definition assign_move_conv :: "hid \<Rightarrow> hid \<Rightarrow> state \<Rightarrow> error + state" where
  "assign_move_conv this r s =
     bind (lookup this s) (\<lambda>_. bind (ctor_move r s) (swap_and_destroy this))"

text \<open>\<^verbatim>\<open>void reset() { if (ptr != nullptr) { intrusive_ptr().swap(*this); } }\<close>\<close>

definition reset :: "hid \<Rightarrow> state \<Rightarrow> error + state" where
  "reset this s =
     bind (lookup this s) (\<lambda>ptr.
       if ptr \<noteq> None then swap_and_destroy this (None, s) else Inr s)"

text \<open>\<^verbatim>\<open>void reset(T* r) { if (ptr != r) { intrusive_ptr(r).swap(*this); } }\<close>\<close>

definition reset_raw :: "hid \<Rightarrow> rawptr \<Rightarrow> state \<Rightarrow> error + state" where
  "reset_raw this r s =
     bind (lookup this s) (\<lambda>ptr.
       if ptr \<noteq> r then bind (ctor_raw r True s) (swap_and_destroy this) else Inr s)"

text \<open>\<^verbatim>\<open>void reset(T* r, bool add_ref) { intrusive_ptr(r, add_ref).swap(*this); }\<close>\<close>

definition reset_raw_add_ref :: "hid \<Rightarrow> rawptr \<Rightarrow> bool \<Rightarrow> state \<Rightarrow> error + state" where
  "reset_raw_add_ref this r add_ref s =
     bind (lookup this s) (\<lambda>_. bind (ctor_raw r add_ref s) (swap_and_destroy this))"

text \<open>
  \<^verbatim>\<open>T& operator*() const noexcept { assert(ptr != nullptr); return *ptr; }\<close>:
  the reference returned is the pointee's address. The state is returned with the
  value, so that what the call leaves of it can be stated.
\<close>

definition deref :: "hid \<Rightarrow> state \<Rightarrow> error + (addr \<times> state)" where
  "deref this s =
     bind (lookup this s) (\<lambda>ptr.
       if ptr \<noteq> None then Inr (the ptr, s) else Inl AssertionFailed)"

text \<open>\<^verbatim>\<open>T* operator->() const noexcept { assert(ptr != nullptr); return ptr; }\<close>\<close>

definition arrow :: "hid \<Rightarrow> state \<Rightarrow> error + (rawptr \<times> state)" where
  "arrow this s =
     bind (lookup this s) (\<lambda>ptr.
       if ptr \<noteq> None then Inr (ptr, s) else Inl AssertionFailed)"

text \<open>\<^verbatim>\<open>T* get() const noexcept { return ptr; }\<close>\<close>

definition get :: "hid \<Rightarrow> state \<Rightarrow> error + rawptr" where
  "get this s = lookup this s"

text \<open>\<^verbatim>\<open>T* detach() noexcept { T* old = ptr; ptr = nullptr; return old; }\<close>\<close>

definition detach :: "hid \<Rightarrow> state \<Rightarrow> error + (rawptr \<times> state)" where
  "detach this s = bind (lookup this s) (\<lambda>old. Inr (old, store this None s))"

text \<open>\<^verbatim>\<open>explicit operator bool () const noexcept { return ptr != nullptr; }\<close>\<close>

definition to_bool :: "hid \<Rightarrow> state \<Rightarrow> error + bool" where
  "to_bool this s = bind (lookup this s) (\<lambda>ptr. Inr (ptr \<noteq> None))"

text \<open>The member \<^verbatim>\<open>swap\<close> between two handles at locations, and the free \<^verbatim>\<open>swap\<close>.\<close>

definition swap :: "hid \<Rightarrow> hid \<Rightarrow> state \<Rightarrow> error + state" where
  "swap this b s =
     bind (lookup this s) (\<lambda>p. bind (lookup b s) (\<lambda>q. Inr (store b p (store this q s))))"

text \<open>
  The comparison operators on the values of \<^verbatim>\<open>get()\<close>:
  \<^verbatim>\<open>operator==(intrusive_ptr<T> const& a, intrusive_ptr<U> const& b)\<close> returns
  \<^verbatim>\<open>a.get() == b.get()\<close>, \<^verbatim>\<open>operator!=\<close> returns \<^verbatim>\<open>a.get() != b.get()\<close>; the mixed forms
  compare \<^verbatim>\<open>a.get()\<close> with a raw pointer \<^verbatim>\<open>b\<close>, or a raw pointer \<^verbatim>\<open>a\<close> with \<^verbatim>\<open>b.get()\<close>.
\<close>

definition op_eq :: "hid \<Rightarrow> hid \<Rightarrow> state \<Rightarrow> error + bool" where
  "op_eq a b s = bind (get a s) (\<lambda>p. bind (get b s) (\<lambda>q. Inr (p = q)))"

definition op_ne :: "hid \<Rightarrow> hid \<Rightarrow> state \<Rightarrow> error + bool" where
  "op_ne a b s = bind (get a s) (\<lambda>p. bind (get b s) (\<lambda>q. Inr (p \<noteq> q)))"

definition op_eq_raw :: "hid \<Rightarrow> rawptr \<Rightarrow> state \<Rightarrow> error + bool" where
  "op_eq_raw a b s = bind (get a s) (\<lambda>p. Inr (p = b))"

definition op_ne_raw :: "hid \<Rightarrow> rawptr \<Rightarrow> state \<Rightarrow> error + bool" where
  "op_ne_raw a b s = bind (get a s) (\<lambda>p. Inr (p \<noteq> b))"

definition raw_op_eq :: "rawptr \<Rightarrow> hid \<Rightarrow> state \<Rightarrow> error + bool" where
  "raw_op_eq a b s = bind (get b s) (\<lambda>q. Inr (a = q))"

definition raw_op_ne :: "rawptr \<Rightarrow> hid \<Rightarrow> state \<Rightarrow> error + bool" where
  "raw_op_ne a b s = bind (get b s) (\<lambda>q. Inr (a \<noteq> q))"

section \<open>Programs over handles\<close>

text \<open>
  The operations a caller can perform, by location of the handle objects and address
  of the reference-counted objects: allocating an object (its counter is built by the
  default constructor), copy-constructing and copy-assigning objects, every
  constructor, assignment and member of \<^verbatim>\<open>intrusive_ptr\<close> that changes the state,
  the handle's destructor, and direct calls of the two bridging functions.
\<close>

datatype op =
    NewObj addr
  | CopyObj addr addr
  | AssignObj addr addr
  | Default hid
  | FromRaw hid rawptr bool
  | Copy hid hid
  | Move hid hid
  | Destroy hid
  | AssignCopy hid hid
  | AssignCopyConv hid hid
  | AssignRaw hid rawptr
  | AssignMove hid hid
  | AssignMoveConv hid hid
  | Reset hid
  | ResetRaw hid rawptr
  | ResetRawAddRef hid rawptr bool
  | Detach hid
  | Swap hid hid
  | AddRefRaw addr
  | ReleaseRaw addr

definition new_obj :: "addr \<Rightarrow> intrusive_ref_counter \<Rightarrow> state \<Rightarrow> error + state" where
  "new_obj a c s =
     (if objs s a \<noteq> None then Inl ObjectExists else Inr (s\<lparr>objs := (objs s)(a \<mapsto> c)\<rparr>))"

definition read_obj :: "addr \<Rightarrow> state \<Rightarrow> error + intrusive_ref_counter" where
  "read_obj a s = (case objs s a of None \<Rightarrow> Inl InvalidPointer | Some c \<Rightarrow> Inr c)"

definition destroy :: "hid \<Rightarrow> state \<Rightarrow> error + state" where
  "destroy h s =
     bind (lookup h s) (\<lambda>p. bind (dtor p s) (\<lambda>s'.
       Inr (s'\<lparr>handles := AList.delete h (handles s')\<rparr>)))"

text \<open>
  The effect of one operation on the store; values returned to the caller are dropped.
  \<open>NewObj a\<close> is \<^verbatim>\<open>new Derived()\<close> at address \<open>a\<close>, \<open>CopyObj a src\<close> is
  \<^verbatim>\<open>new Derived(*src)\<close> and \<open>AssignObj a src\<close> is \<^verbatim>\<open>*a = *src\<close>, each as far as the
  counter goes (the implicitly defined assignment of the object's class calls the
  \<^verbatim>\<open>operator=\<close> of its counter base). \<open>Copy\<close> and \<open>Move\<close> stand for the converting
  constructors as well.
\<close>

fun exec :: "op \<Rightarrow> state \<Rightarrow> error + state" where
  "exec (NewObj a) s = new_obj a intrusive_ref_counter_default s"
| "exec (CopyObj a src) s =
     bind (read_obj src s) (\<lambda>v. new_obj a (intrusive_ref_counter_copy v) s)"
| "exec (AssignObj a src) s =
     bind (read_obj a s) (\<lambda>this. bind (read_obj src s) (\<lambda>v.
       bind (intrusive_ref_counter_assign this v) (\<lambda>c.
         Inr (s\<lparr>objs := (objs s)(a \<mapsto> c)\<rparr>))))"
| "exec (Default h) s = place h None s"
| "exec (FromRaw h p add_ref) s =
     bind (ctor_raw p add_ref s) (\<lambda>(q, s'). place h q s')"
| "exec (Copy h r) s = bind (ctor_copy r s) (\<lambda>(q, s'). place h q s')"
| "exec (Move h r) s = bind (ctor_move r s) (\<lambda>(q, s'). place h q s')"
| "exec (Destroy h) s = destroy h s"
| "exec (AssignCopy h r) s = assign_copy h r s"
| "exec (AssignCopyConv h r) s = assign_copy_conv h r s"
| "exec (AssignRaw h p) s = assign_raw h p s"
| "exec (AssignMove h r) s = assign_move h r s"
| "exec (AssignMoveConv h r) s = assign_move_conv h r s"
| "exec (Reset h) s = reset h s"
| "exec (ResetRaw h p) s = reset_raw h p s"
| "exec (ResetRawAddRef h p add_ref) s = reset_raw_add_ref h p add_ref s"
| "exec (Detach h) s = bind (detach h s) (\<lambda>(old, s'). Inr s')"
| "exec (Swap h b) s = swap h b s"
| "exec (AddRefRaw a) s = intrusive_ptr_add_ref a s"
| "exec (ReleaseRaw a) s = intrusive_ptr_release a s"

text \<open>
  The references the caller holds through raw pointers (not through a handle): one
  more for each \<^verbatim>\<open>detach()\<close> of a non-null handle and each direct
  \<^verbatim>\<open>intrusive_ptr_add_ref\<close>; one fewer for each adoption (a constructor or
  \<^verbatim>\<open>reset\<close> with \<^verbatim>\<open>add_ref\<close> false, on a non-null pointer) and each direct
  \<^verbatim>\<open>intrusive_ptr_release\<close>. Giving away a reference that the caller does not hold is
  the caller's error \<open>NotOwned\<close>.
\<close>

definition take_ref :: "rawptr \<Rightarrow> (addr \<Rightarrow> nat) \<Rightarrow> (addr \<Rightarrow> nat)" where
  "take_ref p own = (case p of None \<Rightarrow> own | Some a \<Rightarrow> own(a := own a + 1))"

definition give_ref :: "rawptr \<Rightarrow> (addr \<Rightarrow> nat) \<Rightarrow> error + (addr \<Rightarrow> nat)" where
  "give_ref p own =
     (case p of
        None \<Rightarrow> Inr own
      | Some a \<Rightarrow> if own a = 0 then Inl NotOwned else Inr (own(a := own a - 1)))"

fun owned_after :: "op \<Rightarrow> state \<Rightarrow> (addr \<Rightarrow> nat) \<Rightarrow> error + (addr \<Rightarrow> nat)" where
  "owned_after (Detach h) s own = bind (lookup h s) (\<lambda>p. Inr (take_ref p own))"
| "owned_after (AddRefRaw a) s own = Inr (take_ref (Some a) own)"
| "owned_after (ReleaseRaw a) s own = give_ref (Some a) own"
| "owned_after (FromRaw h p add_ref) s own = (if add_ref then Inr own else give_ref p own)"
| "owned_after (ResetRawAddRef h p add_ref) s own =
     (if add_ref then Inr own else give_ref p own)"
| "owned_after _ s own = Inr own"

definition step :: "op \<Rightarrow> state \<times> (addr \<Rightarrow> nat) \<Rightarrow> error + state \<times> (addr \<Rightarrow> nat)" where
  "step x w =
     bind (owned_after x (fst w) (snd w)) (\<lambda>own'.
       bind (exec x (fst w)) (\<lambda>s'. Inr (s', own')))"

fun run :: "op list \<Rightarrow> state \<times> (addr \<Rightarrow> nat) \<Rightarrow> error + state \<times> (addr \<Rightarrow> nat)" where
  "run [] w = Inr w"
| "run (x # xs) w = bind (step x w) (run xs)"

text \<open>
  The empty store, in which every object to be allocated is of one class that derives
  from \<^verbatim>\<open>intrusive_ref_counter\<close> of itself; the caller holds no raw reference.
\<close>

definition init :: "state \<times> (addr \<Rightarrow> nat)" where
  "init =
     (\<lparr>objs = (\<lambda>_. None), handles = [], trace = [],
       classes = (\<lambda>_. \<lparr>derived = 0, most_derived = 0\<rparr>), deleted = []\<rparr>,
      (\<lambda>_. 0))"

text \<open>
  The handles that hold the pointer \<open>a\<close>, the counter of the object at \<open>a\<close> as a number
  and as \<^verbatim>\<open>use_count()\<close> reports it.
\<close>

definition hcount :: "(hid \<times> rawptr) list \<Rightarrow> addr \<Rightarrow> nat" where
  "hcount hs a = length (filter (\<lambda>hp. snd hp = Some a) hs)"

definition holders :: "state \<Rightarrow> addr \<Rightarrow> nat" where
  "holders s a = hcount (handles s) a"

definition count_of :: "state \<Rightarrow> addr \<Rightarrow> nat option" where
  "count_of s a = map_option (\<lambda>c. unat (ref_counter c)) (objs s a)"

definition use_count_of :: "state \<Rightarrow> addr \<Rightarrow> nat option" where
  "use_count_of s a = map_option (\<lambda>c. unat (use_count c)) (objs s a)"

text \<open>
  For the proofs: the counter at an address as a machine word (0 where no object
  lives), whether a pointer is the address \<open>a\<close>, and the part of the counter at \<open>a\<close>
  that no handle accounts for.
\<close>

definition count_at :: "state \<Rightarrow> addr \<Rightarrow> size_t" where
  "count_at s a = (case objs s a of None \<Rightarrow> 0 | Some c \<Rightarrow> ref_counter c)"

definition ind :: "rawptr \<Rightarrow> addr \<Rightarrow> size_t" where
  "ind p a = (if p = Some a then 1 else 0)"

definition balance :: "(hid \<times> rawptr) list \<Rightarrow> (addr \<Rightarrow> size_t) \<Rightarrow> addr \<Rightarrow> size_t" where
  "balance hs cnt a = cnt a - of_nat (hcount hs a)"

definition slack :: "state \<Rightarrow> addr \<Rightarrow> size_t" where
  "slack s a = balance (handles s) (count_at s) a"

text \<open>
  The accounting invariant of a run: handle locations are distinct, and at every
  address the part of the counter that no handle accounts for is the number of
  references the caller holds through raw pointers (as a machine word).
\<close>

definition accounted :: "state \<times> (addr \<Rightarrow> nat) \<Rightarrow> bool" where
  "accounted w =
     (distinct (map fst (handles (fst w))) \<and> (\<forall>a. slack (fst w) a = of_nat (snd w a)))"

text \<open>What is observed of the object at \<open>a\<close> after a run.\<close>

definition observe :: "addr \<Rightarrow> state \<times> (addr \<Rightarrow> nat) \<Rightarrow> nat option \<times> nat option \<times> nat \<times> nat" where
  "observe a w = (count_of (fst w) a, use_count_of (fst w) a, holders (fst w) a, snd w a)"

text \<open>An object is live at \<open>a\<close>: it has been allocated there and not been deleted.\<close>

definition live :: "state \<Rightarrow> addr \<Rightarrow> bool" where
  "live t a = (objs t a \<noteq> None)"

text \<open>
  For the proofs: \<open>t'\<close> is reached from \<open>t\<close> by logging further calls, and every
  object that is live in \<open>t\<close> and no longer live in \<open>t'\<close> is the argument of a logged
  \<^verbatim>\<open>intrusive_ptr_release\<close> among them.
\<close>

definition extends :: "state \<Rightarrow> state \<Rightarrow> bool" where
  "extends t t' =
     (\<exists>evs. trace t' = trace t @ evs \<and>
        (\<forall>a. live t a \<and> \<not> live t' a \<longrightarrow> Release a \<in> set evs))"

text \<open>
  The calls that a constructor from a raw pointer and a destructor are expected to log.
\<close>

definition add_ref_calls :: "rawptr \<Rightarrow> bool \<Rightarrow> event list" where
  "add_ref_calls p acquire = (if p \<noteq> None \<and> acquire then [AddRef (the p)] else [])"

definition release_calls :: "rawptr \<Rightarrow> event list" where
  "release_calls p = (case p of None \<Rightarrow> [] | Some a \<Rightarrow> [Release a])"

section \<open>Example programs\<close>

text \<open>
  The scenario of the specification: an object is allocated, a handle \<open>0\<close> acquires it,
  a handle \<open>1\<close> copies handle \<open>0\<close>, handle \<open>0\<close> is reset, handle \<open>1\<close> is detached.
  \<open>scenario_final\<close> is the store and the caller's raw references after it.
\<close>

definition scenario :: "op list" where
  "scenario = [NewObj 1, FromRaw 0 (Some 1) True, Copy 1 0, Reset 0, Detach 1]"

definition scenario_final :: "state \<times> (addr \<Rightarrow> nat)" where
  "scenario_final =
     (\<lparr>objs = (\<lambda>_. None)(1 \<mapsto> \<lparr>ref_counter = 1\<rparr>),
       handles = [(0, None), (1, None)],
       trace = [AddRef 1, AddRef 1, Release 1],
       classes = (\<lambda>_. \<lparr>derived = 0, most_derived = 0\<rparr>), deleted = []\<rparr>,
      (\<lambda>_. 0)(1 := 1))"

text \<open>
  A loop that resets a handle to the object at address 1 with acquisition and detaches
  it again, \<open>n\<close> times: each round leaves one more detached reference with the caller.
\<close>

definition detach_loop :: "nat \<Rightarrow> op list" where
  "detach_loop n = concat (replicate n [ResetRaw 0 (Some 1), Detach 0])"

text \<open>
  Two stores for examples: in \<open>sole_owner\<close> the handle at location 0 holds the only
  reference to the object at address 1; in \<open>two_owners\<close> the handles at 0 and 1 both
  hold it, the handle at 2 is null, and a second object lives at address 2 with no
  reference.
\<close>

definition sole_owner :: state where
  "sole_owner =
     \<lparr>objs = (\<lambda>_. None)(1 \<mapsto> \<lparr>ref_counter = 1\<rparr>), handles = [(0, Some 1)], trace = [],
      classes = (\<lambda>_. \<lparr>derived = 0, most_derived = 0\<rparr>), deleted = []\<rparr>"

definition two_owners :: state where
  "two_owners =
     \<lparr>objs = (\<lambda>_. None)(1 \<mapsto> \<lparr>ref_counter = 2\<rparr>, 2 \<mapsto> \<lparr>ref_counter = 0\<rparr>),
      handles = [(0, Some 1), (1, Some 1), (2, None)], trace = [],
      classes = (\<lambda>_. \<lparr>derived = 0, most_derived = 0\<rparr>), deleted = []\<rparr>"


section \<open>Basic facts\<close>

lemma bind_Inr [simp]: "bind (Inr x) f = f x" by (simp add: bind_def)
lemma bind_Inl [simp]: "bind (Inl e) f = Inl e" by (simp add: bind_def)
lemma bind_eq_Inr: "bind m f = Inr y \<longleftrightarrow> (\<exists>x. m = Inr x \<and> f x = Inr y)"
  by (cases m) simp_all

lemma lookup_eq_Inr: "lookup h s = Inr p \<longleftrightarrow> map_of (handles s) h = Some p"
  by (simp add: lookup_def split: option.splits)

subsection \<open>Counting the handles that hold a pointer\<close>

lemma hcount_Nil [simp]: "hcount [] a = 0"
  by (simp add: hcount_def)

lemma hcount_Cons [simp]: "hcount ((k, v) # hs) a = (if v = Some a then 1 else 0) + hcount hs a"
  by (simp add: hcount_def)

lemma hcount_update_new:
  "map_of hs h = None \<Longrightarrow>
   hcount (AList.update h p hs) a = hcount hs a + (if p = Some a then 1 else 0)"
  by (induction hs) (auto split: if_splits)

lemma hcount_update_old:
  "distinct (map fst hs) \<Longrightarrow> map_of hs h = Some q \<Longrightarrow>
   hcount (AList.update h p hs) a + (if q = Some a then 1 else 0) =
   hcount hs a + (if p = Some a then 1 else 0)"
  by (induction hs) (auto split: if_splits)

lemma delete_absent: "map_of hs h = None \<Longrightarrow> AList.delete h hs = hs"
  by (induction hs) (auto split: if_splits)

lemma hcount_delete:
  "distinct (map fst hs) \<Longrightarrow> map_of hs h = Some q \<Longrightarrow>
   hcount (AList.delete h hs) a + (if q = Some a then 1 else 0) = hcount hs a"
proof (induction hs)
  case Nil
  then show ?case by simp
next
  case (Cons x hs)
  obtain k v where x: "x = (k, v)" by (cases x)
  show ?case
  proof (cases "k = h")
    case True
    with Cons.prems x have "map_of hs h = None" by (auto simp: map_of_eq_None_iff)
    then have "AList.delete h hs = hs" by (rule delete_absent)
    with True Cons.prems x show ?thesis by simp
  next
    case False
    with Cons x show ?thesis by simp
  qed
qed

lemma balance_update_new:
  "map_of hs h = None \<Longrightarrow> balance (AList.update h p hs) cnt a = balance hs cnt a - ind p a"
  by (simp add: balance_def ind_def hcount_update_new)

lemma balance_update_old:
  assumes "distinct (map fst hs)" and "map_of hs h = Some q"
  shows "balance (AList.update h p hs) cnt a = balance hs cnt a - ind p a + ind q a"
proof -
  have "(of_nat (hcount (AList.update h p hs) a + (if q = Some a then 1 else 0)) :: size_t) =
        of_nat (hcount hs a + (if p = Some a then 1 else 0))"
    using hcount_update_old [OF assms] by simp
  then show ?thesis
    by (simp add: balance_def ind_def algebra_simps split: if_splits)
qed

lemma balance_delete:
  assumes "distinct (map fst hs)" and "map_of hs h = Some q"
  shows "balance (AList.delete h hs) cnt a = balance hs cnt a + ind q a"
proof -
  have "(of_nat (hcount (AList.delete h hs) a + (if q = Some a then 1 else 0)) :: size_t) =
        of_nat (hcount hs a)"
    using hcount_delete [OF assms] by simp
  then show ?thesis
    by (simp add: balance_def ind_def algebra_simps split: if_splits)
qed

lemma balance_cnt: "balance hs (\<lambda>b. cnt b + d b) a = balance hs cnt a + d a"
  by (simp add: balance_def)

lemma balance_cnt_minus: "balance hs (\<lambda>b. cnt b - d b) a = balance hs cnt a - d a"
  by (simp add: balance_def)


subsection \<open>Effect of the building blocks on handles and counters\<close>

lemma log_event_sel [simp]:
  "objs (log_event e s) = objs s" "handles (log_event e s) = handles s"
  "trace (log_event e s) = trace s @ [e]" "classes (log_event e s) = classes s"
  "deleted (log_event e s) = deleted s"
  by (simp_all add: log_event_def)

lemma store_sel [simp]:
  "objs (store h p s) = objs s" "handles (store h p s) = AList.update h p (handles s)"
  "trace (store h p s) = trace s"
  by (simp_all add: store_def)

lemma delete_obj_sel [simp]:
  "objs (delete_obj a s) = (objs s)(a := None)" "handles (delete_obj a s) = handles s"
  "trace (delete_obj a s) = trace s" "classes (delete_obj a s) = classes s"
  "deleted (delete_obj a s) = deleted s @ [(a, derived (classes s a))]"
  by (simp_all add: delete_obj_def)

lemma count_at_frame [simp]:
  "count_at (store h p s) = count_at s" "count_at (log_event e s) = count_at s"
  "count_at (s\<lparr>handles := hs\<rparr>) = count_at s"
  by (simp_all add: count_at_def fun_eq_iff)

lemma add_ref_effect:
  assumes "intrusive_ptr_add_ref a s = Inr s'"
  shows "handles s' = handles s \<and> count_at s' = (\<lambda>b. count_at s b + ind (Some a) b)"
proof -
  from assms obtain c where c: "objs s a = Some c"
    and s': "s' = (log_event (AddRef a) s)\<lparr>objs := (objs s)(a \<mapsto> c\<lparr>ref_counter := ref_counter c + 1\<rparr>)\<rparr>"
    by (auto simp: intrusive_ptr_add_ref_def fetch_add_def log_event_def split: option.splits)
  show ?thesis
    by (simp add: s' c log_event_def count_at_def ind_def fun_eq_iff)
qed

lemma release_effect:
  assumes "intrusive_ptr_release a s = Inr s'"
  shows "handles s' = handles s \<and> count_at s' = (\<lambda>b. count_at s b - ind (Some a) b)"
proof -
  from assms obtain c where c: "objs s a = Some c"
    by (auto simp: intrusive_ptr_release_def fetch_sub_def split: option.splits)
  show ?thesis
  proof (cases "ref_counter c = 1")
    case True
    with assms c show ?thesis
      by (simp add: intrusive_ptr_release_def fetch_sub_def log_event_def delete_obj_def
          count_at_def ind_def fun_eq_iff) auto
  next
    case False
    with assms c show ?thesis
      by (simp add: intrusive_ptr_release_def fetch_sub_def log_event_def delete_obj_def
          count_at_def ind_def fun_eq_iff) auto
  qed
qed

lemma ctor_raw_effect:
  assumes "ctor_raw p f s = Inr (q, s')"
  shows "q = p \<and> handles s' = handles s \<and>
         count_at s' = (\<lambda>b. count_at s b + (if f then ind p b else 0))"
proof (cases "p \<noteq> None \<and> f")
  case True
  then obtain a where a: "p = Some a" by auto
  with True assms have "intrusive_ptr_add_ref a s = Inr s'" and "q = p"
    by (auto simp: ctor_raw_def bind_eq_Inr)
  with add_ref_effect [of a s s'] True a show ?thesis by simp
next
  case False
  with assms have "q = p" and "s' = s" by (auto simp: ctor_raw_def)
  with False show ?thesis by (auto simp: ind_def)
qed

lemma dtor_effect:
  assumes "dtor p s = Inr s'"
  shows "handles s' = handles s \<and> count_at s' = (\<lambda>b. count_at s b - ind p b)"
proof (cases p)
  case None
  with assms show ?thesis by (simp add: dtor_def ind_def)
next
  case (Some a)
  with assms have "intrusive_ptr_release a s = Inr s'" by (simp add: dtor_def)
  with release_effect [of a s s'] Some show ?thesis by simp
qed

lemma ctor_copy_effect:
  assumes "ctor_copy r s = Inr (q, s')"
  shows "map_of (handles s) r = Some q \<and> handles s' = handles s \<and>
         count_at s' = (\<lambda>b. count_at s b + ind q b)"
proof -
  from assms obtain p where p: "map_of (handles s) r = Some p"
    and rest: "(if p \<noteq> None then bind (intrusive_ptr_add_ref (the p) s) (\<lambda>s'. Inr (p, s'))
                else Inr (p, s)) = Inr (q, s')"
    by (auto simp: ctor_copy_def bind_eq_Inr lookup_eq_Inr)
  show ?thesis
  proof (cases p)
    case None
    with rest p show ?thesis by (simp add: ind_def)
  next
    case (Some a)
    with rest have "intrusive_ptr_add_ref a s = Inr s'" and "q = p"
      by (auto simp: bind_eq_Inr)
    with add_ref_effect [of a s s'] Some p show ?thesis by simp
  qed
qed

lemma ctor_move_effect:
  assumes "ctor_move r s = Inr (q, s')"
  shows "map_of (handles s) r = Some q \<and> handles s' = AList.update r None (handles s) \<and>
         count_at s' = count_at s"
  using assms
  by (auto simp: ctor_move_def bind_eq_Inr lookup_eq_Inr store_def count_at_def fun_eq_iff)

lemma swap_and_destroy_effect:
  assumes "swap_and_destroy this (tmp, s) = Inr s'"
  shows "\<exists>old. map_of (handles s) this = Some old \<and>
           handles s' = AList.update this tmp (handles s) \<and>
           count_at s' = (\<lambda>b. count_at s b - ind old b)"
proof -
  from assms obtain old where old: "map_of (handles s) this = Some old"
    and d: "dtor old (store this tmp s) = Inr s'"
    by (auto simp: swap_and_destroy_def swap_tmp_def bind_eq_Inr lookup_eq_Inr)
  from dtor_effect [OF d] old show ?thesis
    by (auto simp: store_def count_at_def)
qed

lemma place_effect:
  assumes "place h p s = Inr s'"
  shows "map_of (handles s) h = None \<and> handles s' = AList.update h p (handles s) \<and>
         count_at s' = count_at s"
  using assms
  by (auto simp: place_def store_def count_at_def fun_eq_iff split: if_splits)


subsection \<open>The accounting invariant\<close>

lemma map_of_update: "map_of (AList.update k v hs) = (map_of hs)(k \<mapsto> v)"
  by (rule update_conv')

lemma swap_and_destroy_slack:
  assumes "swap_and_destroy this (tmp, s) = Inr s'" and "distinct (map fst (handles s))"
  shows "distinct (map fst (handles s')) \<and> (\<forall>a. slack s' a = slack s a - ind tmp a)"
proof -
  from swap_and_destroy_effect [OF assms(1)] obtain old
    where old: "map_of (handles s) this = Some old"
      and h: "handles s' = AList.update this tmp (handles s)"
      and c: "count_at s' = (\<lambda>b. count_at s b - ind old b)"
    by blast
  show ?thesis
    using assms(2)
    by (simp add: slack_def h c balance_cnt_minus balance_update_old [OF assms(2) old]
        distinct_update)
qed

lemma ctor_raw_slack:
  assumes "ctor_raw p f s = Inr (q, s')"
  shows "q = p \<and> handles s' = handles s \<and>
         (\<forall>a. slack s' a = slack s a + (if f then ind p a else 0))"
  using ctor_raw_effect [OF assms] by (simp add: slack_def balance_def)

lemma ctor_copy_slack:
  assumes "ctor_copy r s = Inr (q, s')"
  shows "map_of (handles s) r = Some q \<and> handles s' = handles s \<and>
         (\<forall>a. slack s' a = slack s a + ind q a)"
  using ctor_copy_effect [OF assms] by (simp add: slack_def balance_def)

lemma ctor_move_slack:
  assumes "ctor_move r s = Inr (q, s')" and "distinct (map fst (handles s))"
  shows "map_of (handles s) r = Some q \<and> distinct (map fst (handles s')) \<and>
         map_of (handles s') = (map_of (handles s))(r \<mapsto> None) \<and>
         (\<forall>a. slack s' a = slack s a + ind q a)"
proof -
  from ctor_move_effect [OF assms(1)]
  have q: "map_of (handles s) r = Some q"
    and h: "handles s' = AList.update r None (handles s)"
    and c: "count_at s' = count_at s"
    by simp_all
  show ?thesis
    using assms(2)
    by (simp add: slack_def h c q balance_update_old [OF assms(2) q] distinct_update
        map_of_update ind_def)
qed

lemma place_slack:
  assumes "place h p s = Inr s'" and "distinct (map fst (handles s))"
  shows "distinct (map fst (handles s')) \<and> (\<forall>a. slack s' a = slack s a - ind p a)"
proof -
  from place_effect [OF assms(1)]
  have n: "map_of (handles s) h = None"
    and h: "handles s' = AList.update h p (handles s)"
    and c: "count_at s' = count_at s"
    by simp_all
  show ?thesis
    using assms(2) by (simp add: slack_def h c balance_update_new [OF n] distinct_update)
qed

lemma dtor_slack:
  assumes "dtor p s = Inr s'"
  shows "handles s' = handles s \<and> (\<forall>a. slack s' a = slack s a - ind p a)"
  using dtor_effect [OF assms] by (simp add: slack_def balance_def)

lemma detach_slack:
  assumes "detach h s = Inr (old, s')" and "distinct (map fst (handles s))"
  shows "map_of (handles s) h = Some old \<and> distinct (map fst (handles s')) \<and>
         (\<forall>a. slack s' a = slack s a + ind old a)"
proof -
  from assms(1) have old: "map_of (handles s) h = Some old" and s': "s' = store h None s"
    by (auto simp: detach_def bind_eq_Inr lookup_eq_Inr)
  show ?thesis
    using assms(2)
    by (simp add: slack_def s' old balance_update_old [OF assms(2) old] distinct_update ind_def)
qed

lemma destroy_slack:
  assumes "destroy h s = Inr s'" and "distinct (map fst (handles s))"
  shows "distinct (map fst (handles s')) \<and> (\<forall>a. slack s' a = slack s a)"
proof -
  from assms(1) obtain p s1 where p: "map_of (handles s) h = Some p"
    and d: "dtor p s = Inr s1" and s': "s' = s1\<lparr>handles := AList.delete h (handles s1)\<rparr>"
    by (auto simp: destroy_def bind_eq_Inr lookup_eq_Inr)
  from dtor_effect [OF d] have h1: "handles s1 = handles s"
    and c1: "count_at s1 = (\<lambda>b. count_at s b - ind p b)" by simp_all
  show ?thesis
    using assms(2)
    by (simp add: slack_def c1 s' h1 balance_cnt_minus balance_delete [OF assms(2) p]
        distinct_delete)
qed

lemma swap_slack:
  assumes "swap this b s = Inr s'" and "distinct (map fst (handles s))"
  shows "distinct (map fst (handles s')) \<and> (\<forall>a. slack s' a = slack s a)"
proof -
  from assms(1) obtain p q where p: "map_of (handles s) this = Some p"
    and q: "map_of (handles s) b = Some q" and s': "s' = store b p (store this q s)"
    by (auto simp: swap_def bind_eq_Inr lookup_eq_Inr)
  have d1: "distinct (map fst (AList.update this q (handles s)))"
    using assms(2) by (simp add: distinct_update)
  have m: "map_of (AList.update this q (handles s)) b = Some q"
    using q by (simp add: map_of_update)
  show ?thesis
    using assms(2)
    by (simp add: slack_def s' balance_update_old [OF d1 m]
        balance_update_old [OF assms(2) p] distinct_update)
qed


lemma give_ref_word:
  assumes "give_ref p own = Inr own'"
  shows "(of_nat (own' a) :: size_t) = of_nat (own a) - ind p a"
proof (cases p)
  case None
  with assms show ?thesis by (simp add: give_ref_def ind_def)
next
  case (Some b)
  with assms have pos: "own b \<noteq> 0" and own': "own' = own(b := own b - 1)"
    by (auto simp: give_ref_def split: if_splits)
  from pos have "(of_nat (own b - 1) :: size_t) = of_nat (own b) - 1"
    by (cases "own b") simp_all
  with Some own' show ?thesis by (auto simp: ind_def)
qed

lemma take_ref_word: "(of_nat (take_ref p own a) :: size_t) = of_nat (own a) + ind p a"
  by (cases p) (simp_all add: take_ref_def ind_def)

lemma new_obj_slack:
  assumes "new_obj a c s = Inr s'" and "ref_counter c = 0"
  shows "handles s' = handles s \<and> (\<forall>b. slack s' b = slack s b)"
proof -
  from assms(1) have n: "objs s a = None" and s': "s' = s\<lparr>objs := (objs s)(a \<mapsto> c)\<rparr>"
    by (auto simp: new_obj_def split: if_splits)
  have "count_at s' = count_at s"
    using n assms(2) by (auto simp: s' count_at_def fun_eq_iff)
  then show ?thesis by (simp add: slack_def s')
qed

lemma add_ref_slack:
  assumes "intrusive_ptr_add_ref a s = Inr s'"
  shows "handles s' = handles s \<and> (\<forall>b. slack s' b = slack s b + ind (Some a) b)"
  using add_ref_effect [OF assms] by (simp add: slack_def balance_def)

lemma release_slack:
  assumes "intrusive_ptr_release a s = Inr s'"
  shows "handles s' = handles s \<and> (\<forall>b. slack s' b = slack s b - ind (Some a) b)"
  using release_effect [OF assms] by (simp add: slack_def balance_def)

lemma tmp_swap_slack:
  assumes "swap_and_destroy this ts = Inr s'" and "distinct (map fst (handles (snd ts)))"
    and "\<forall>a. slack (snd ts) a = x a + ind (fst ts) a"
  shows "distinct (map fst (handles s')) \<and> (\<forall>a. slack s' a = x a)"
  using swap_and_destroy_slack [of this "fst ts" "snd ts" s'] assms by simp

lemma assign_copy_slack:
  assumes "assign_copy this r s = Inr s'" and "distinct (map fst (handles s))"
  shows "distinct (map fst (handles s')) \<and> (\<forall>a. slack s' a = slack s a)"
proof (cases "this = r")
  case True
  with assms show ?thesis by (auto simp: assign_copy_def bind_eq_Inr)
next
  case False
  with assms(1) obtain ts where c: "ctor_copy r s = Inr ts"
    and d: "swap_and_destroy this ts = Inr s'"
    by (auto simp: assign_copy_def bind_eq_Inr)
  from ctor_copy_slack [of r s "fst ts" "snd ts"] c assms(2)
  show ?thesis by (intro tmp_swap_slack [OF d]) simp_all
qed

lemma assign_copy_conv_slack:
  assumes "assign_copy_conv this r s = Inr s'" and "distinct (map fst (handles s))"
  shows "distinct (map fst (handles s')) \<and> (\<forall>a. slack s' a = slack s a)"
proof -
  from assms(1) obtain ts where c: "ctor_copy r s = Inr ts"
    and d: "swap_and_destroy this ts = Inr s'"
    by (auto simp: assign_copy_conv_def bind_eq_Inr)
  from ctor_copy_slack [of r s "fst ts" "snd ts"] c assms(2)
  show ?thesis by (intro tmp_swap_slack [OF d]) simp_all
qed

lemma assign_move_conv_slack:
  assumes "assign_move_conv this r s = Inr s'" and "distinct (map fst (handles s))"
  shows "distinct (map fst (handles s')) \<and> (\<forall>a. slack s' a = slack s a)"
proof -
  from assms(1) obtain ts where c: "ctor_move r s = Inr ts"
    and d: "swap_and_destroy this ts = Inr s'"
    by (auto simp: assign_move_conv_def bind_eq_Inr)
  from ctor_move_slack [of r s "fst ts" "snd ts"] c assms(2)
  show ?thesis by (intro tmp_swap_slack [OF d]) simp_all
qed

lemma assign_move_slack:
  assumes "assign_move this r s = Inr s'" and "distinct (map fst (handles s))"
  shows "distinct (map fst (handles s')) \<and> (\<forall>a. slack s' a = slack s a)"
proof (cases "this = r")
  case True
  with assms show ?thesis by (auto simp: assign_move_def bind_eq_Inr)
next
  case False
  with assms(1) obtain ts where c: "ctor_move r s = Inr ts"
    and d: "swap_and_destroy this ts = Inr s'"
    by (auto simp: assign_move_def bind_eq_Inr)
  from ctor_move_slack [of r s "fst ts" "snd ts"] c assms(2)
  show ?thesis by (intro tmp_swap_slack [OF d]) simp_all
qed

lemma reset_raw_add_ref_slack:
  assumes "reset_raw_add_ref this p f s = Inr s'" and "distinct (map fst (handles s))"
  shows "distinct (map fst (handles s')) \<and>
         (\<forall>a. slack s' a = slack s a - (if f then 0 else ind p a))"
proof -
  from assms(1) obtain ts where c: "ctor_raw p f s = Inr ts"
    and d: "swap_and_destroy this ts = Inr s'"
    by (auto simp: reset_raw_add_ref_def bind_eq_Inr)
  from ctor_raw_slack [of p f s "fst ts" "snd ts"] c assms(2)
  show ?thesis by (intro tmp_swap_slack [OF d]) simp_all
qed

lemma reset_raw_slack:
  assumes "reset_raw this p s = Inr s'" and "distinct (map fst (handles s))"
  shows "distinct (map fst (handles s')) \<and> (\<forall>a. slack s' a = slack s a)"
proof -
  from assms(1) obtain ptr where ptr: "lookup this s = Inr ptr"
    and rest: "(if ptr \<noteq> p then bind (ctor_raw p True s) (swap_and_destroy this) else Inr s)
                 = Inr s'"
    by (auto simp: reset_raw_def bind_eq_Inr)
  show ?thesis
  proof (cases "ptr = p")
    case True
    with rest assms(2) show ?thesis by simp
  next
    case False
    with rest obtain ts where c: "ctor_raw p True s = Inr ts"
      and d: "swap_and_destroy this ts = Inr s'"
      by (auto simp: bind_eq_Inr)
    from ctor_raw_slack [of p True s "fst ts" "snd ts"] c assms(2)
    show ?thesis by (intro tmp_swap_slack [OF d]) simp_all
  qed
qed

lemma assign_raw_eq_reset_raw: "assign_raw this p s = reset_raw this p s"
  by (simp add: assign_raw_def reset_raw_def)

lemma reset_slack:
  assumes "reset this s = Inr s'" and "distinct (map fst (handles s))"
  shows "distinct (map fst (handles s')) \<and> (\<forall>a. slack s' a = slack s a)"
proof -
  from assms(1) obtain ptr where ptr: "lookup this s = Inr ptr"
    and rest: "(if ptr \<noteq> None then swap_and_destroy this (None, s) else Inr s) = Inr s'"
    by (auto simp: reset_def bind_eq_Inr)
  show ?thesis
  proof (cases "ptr = None")
    case True
    with rest assms(2) show ?thesis by simp
  next
    case False
    with rest have d: "swap_and_destroy this (None, s) = Inr s'" by simp
    from assms(2) show ?thesis by (intro tmp_swap_slack [OF d]) (simp_all add: ind_def)
  qed
qed


lemma exec_slack:
  assumes "exec x s = Inr s'" and "owned_after x s own = Inr own'"
    and "distinct (map fst (handles s))"
  shows "distinct (map fst (handles s')) \<and>
         (\<forall>a. slack s' a - of_nat (own' a) = slack s a - of_nat (own a))"
proof (cases x)
  case (NewObj a)
  with assms new_obj_slack [of a intrusive_ref_counter_default s s'] show ?thesis
    by (simp add: intrusive_ref_counter_default_def)
next
  case (CopyObj a src)
  with assms(1) obtain v where "new_obj a (intrusive_ref_counter_copy v) s = Inr s'"
    by (auto simp: bind_eq_Inr)
  with assms CopyObj new_obj_slack [of a "intrusive_ref_counter_copy v" s s'] show ?thesis
    by (simp add: intrusive_ref_counter_copy_def)
next
  case (AssignObj a src)
  with assms(1) have False
    by (auto simp: bind_eq_Inr intrusive_ref_counter_assign_def)
  then show ?thesis ..
next
  case (Default h)
  with assms place_slack [of h None s s'] show ?thesis by (simp add: ind_def)
next
  case (FromRaw h p f)
  with assms(1) obtain q s1 where c: "ctor_raw p f s = Inr (q, s1)" and pl: "place h q s1 = Inr s'"
    by (auto simp: bind_eq_Inr)
  from ctor_raw_slack [OF c] have q: "q = p" and h1: "handles s1 = handles s"
    and sl: "\<forall>a. slack s1 a = slack s a + (if f then ind p a else 0)" by simp_all
  from place_slack [OF pl] h1 assms(3) q
  have d: "distinct (map fst (handles s'))" and sl': "\<forall>a. slack s' a = slack s1 a - ind p a"
    by simp_all
  show ?thesis
  proof (cases f)
    case True
    with assms(2) FromRaw d sl sl' show ?thesis by simp
  next
    case False
    with assms(2) FromRaw have "give_ref p own = Inr own'" by simp
    from give_ref_word [OF this] False d sl sl' show ?thesis by simp
  qed
next
  case (Copy h r)
  with assms(1) obtain q s1 where c: "ctor_copy r s = Inr (q, s1)" and pl: "place h q s1 = Inr s'"
    by (auto simp: bind_eq_Inr)
  from ctor_copy_slack [OF c] have h1: "handles s1 = handles s"
    and sl: "\<forall>a. slack s1 a = slack s a + ind q a" by simp_all
  from place_slack [OF pl] h1 assms(3) sl assms(2) Copy show ?thesis by simp
next
  case (Move h r)
  with assms(1) obtain q s1 where c: "ctor_move r s = Inr (q, s1)" and pl: "place h q s1 = Inr s'"
    by (auto simp: bind_eq_Inr)
  from ctor_move_slack [OF c assms(3)] have d1: "distinct (map fst (handles s1))"
    and sl: "\<forall>a. slack s1 a = slack s a + ind q a" by simp_all
  from place_slack [OF pl d1] sl assms(2) Move show ?thesis by simp
next
  case (Destroy h)
  with assms destroy_slack [of h s s'] show ?thesis by simp
next
  case (AssignCopy h r)
  with assms assign_copy_slack [of h r s s'] show ?thesis by simp
next
  case (AssignCopyConv h r)
  with assms assign_copy_conv_slack [of h r s s'] show ?thesis by simp
next
  case (AssignRaw h p)
  with assms reset_raw_slack [of h p s s'] show ?thesis by (simp add: assign_raw_eq_reset_raw)
next
  case (AssignMove h r)
  with assms assign_move_slack [of h r s s'] show ?thesis by simp
next
  case (AssignMoveConv h r)
  with assms assign_move_conv_slack [of h r s s'] show ?thesis by simp
next
  case (Reset h)
  with assms reset_slack [of h s s'] show ?thesis by simp
next
  case (ResetRaw h p)
  with assms reset_raw_slack [of h p s s'] show ?thesis by simp
next
  case (ResetRawAddRef h p f)
  with assms(1) have r: "reset_raw_add_ref h p f s = Inr s'" by simp
  from reset_raw_add_ref_slack [OF r assms(3)]
  have d: "distinct (map fst (handles s'))"
    and sl: "\<forall>a. slack s' a = slack s a - (if f then 0 else ind p a)" by simp_all
  show ?thesis
  proof (cases f)
    case True
    with assms(2) ResetRawAddRef d sl show ?thesis by simp
  next
    case False
    with assms(2) ResetRawAddRef have "give_ref p own = Inr own'" by simp
    from give_ref_word [OF this] False d sl show ?thesis by simp
  qed
next
  case (Detach h)
  with assms(1) obtain old where dt: "detach h s = Inr (old, s')"
    by (auto simp: bind_eq_Inr)
  from detach_slack [OF dt assms(3)] have old: "map_of (handles s) h = Some old"
    and d: "distinct (map fst (handles s'))"
    and sl: "\<forall>a. slack s' a = slack s a + ind old a" by simp_all
  from assms(2) Detach old have "own' = take_ref old own"
    by (auto simp: bind_eq_Inr lookup_eq_Inr)
  with d sl show ?thesis by (simp add: take_ref_word)
next
  case (Swap h b)
  with assms swap_slack [of h b s s'] show ?thesis by simp
next
  case (AddRefRaw a)
  with assms add_ref_slack [of a s s'] show ?thesis by (auto simp: take_ref_word)
next
  case (ReleaseRaw a)
  with assms(2) have "give_ref (Some a) own = Inr own'" by simp
  from give_ref_word [OF this] ReleaseRaw assms release_slack [of a s s'] show ?thesis by simp
qed

lemma step_accounted:
  assumes "step x w = Inr w'" and "accounted w"
  shows "accounted w'"
proof -
  from assms(1) obtain own' s' where o: "owned_after x (fst w) (snd w) = Inr own'"
    and e: "exec x (fst w) = Inr s'" and w': "w' = (s', own')"
    by (auto simp: step_def bind_eq_Inr)
  from assms(2) have d: "distinct (map fst (handles (fst w)))"
    and sl: "\<forall>a. slack (fst w) a = of_nat (snd w a)"
    by (simp_all add: accounted_def)
  from exec_slack [OF e o d] sl show ?thesis
    by (simp add: accounted_def w')
qed

lemma run_accounted:
  "run xs w = Inr w' \<Longrightarrow> accounted w \<Longrightarrow> accounted w'"
proof (induction xs arbitrary: w)
  case Nil
  then show ?case by simp
next
  case (Cons x xs)
  from Cons.prems(1) obtain w1 where s: "step x w = Inr w1" and r: "run xs w1 = Inr w'"
    by (auto simp: bind_eq_Inr)
  from step_accounted [OF s Cons.prems(2)] have "accounted w1" .
  with Cons.IH [OF r] show ?case .
qed

lemma accounted_init: "accounted init"
  by (simp add: accounted_def init_def slack_def balance_def count_at_def)

lemma accounted_count:
  assumes "accounted (s, own)" and "objs s a = Some c"
  shows "ref_counter c = of_nat (holders s a + own a)"
proof -
  from assms(1) have "slack s a = of_nat (own a)" by (simp add: accounted_def)
  with assms(2) show ?thesis
    by (simp add: slack_def balance_def count_at_def holders_def algebra_simps)
qed

subsection \<open>The example programs\<close>

lemmas op_defs = step_def new_obj_def read_obj_def place_def ctor_raw_def ctor_copy_def
  ctor_move_def dtor_def swap_tmp_def swap_and_destroy_def assign_copy_def assign_copy_conv_def
  assign_raw_def assign_move_def assign_move_conv_def reset_def reset_raw_def
  reset_raw_add_ref_def detach_def swap_def destroy_def lookup_def store_def
  intrusive_ptr_add_ref_def intrusive_ptr_release_def fetch_add_def fetch_sub_def
  log_event_def delete_obj_def take_ref_def give_ref_def intrusive_ref_counter_default_def
  intrusive_ref_counter_copy_def intrusive_ref_counter_assign_def

lemma scenario_run: "run scenario init = Inr scenario_final"
  by (simp add: scenario_def scenario_final_def init_def op_defs)

lemma run_append: "run (xs @ ys) w = bind (run xs w) (run ys)"
  by (induction xs arbitrary: w) (auto simp: bind_def split: sum.splits)

lemma detach_loop_step:
  assumes "map_of (handles s) 0 = Some None" and "objs s 1 = Some c"
  shows "\<exists>s' own'. run [ResetRaw 0 (Some 1), Detach 0] (s, own) = Inr (s', own') \<and>
           own' 1 = own 1 + 1 \<and>
           handles s' = AList.update 0 None (AList.update 0 (Some 1) (handles s)) \<and>
           objs s' 1 = Some (c\<lparr>ref_counter := ref_counter c + 1\<rparr>)"
  using assms by (simp add: op_defs map_of_update)

lemma update_update_same: "AList.update k v (AList.update k u hs) = AList.update k v hs"
  by (induction hs) auto

lemma detach_loop_run:
  assumes "map_of (handles s) 0 = Some None" and "objs s 1 = Some c"
  shows "\<exists>s' own'. run (detach_loop n) (s, own) = Inr (s', own') \<and>
           own' 1 = own 1 + n \<and> handles s' = handles s \<and>
           objs s' 1 = Some (c\<lparr>ref_counter := ref_counter c + of_nat n\<rparr>)"
  using assms
proof (induction n arbitrary: s own c)
  case 0
  then show ?case by (simp add: detach_loop_def)
next
  case (Suc n)
  from detach_loop_step [OF Suc.prems, of own] obtain s1 own1
    where r1: "run [ResetRaw 0 (Some 1), Detach 0] (s, own) = Inr (s1, own1)"
      and g1: "own1 1 = own 1 + 1"
      and h1: "handles s1 = AList.update 0 None (AList.update 0 (Some 1) (handles s))"
      and c1: "objs s1 1 = Some (c\<lparr>ref_counter := ref_counter c + 1\<rparr>)"
    by blast
  from Suc.prems(1) have h1': "handles s1 = handles s"
    by (simp add: h1 update_update_same update_triv)
  have m1: "map_of (handles s1) 0 = Some None" using Suc.prems(1) h1' by simp
  from Suc.IH [OF m1 c1, of own1] obtain s' own'
    where r: "run (detach_loop n) (s1, own1) = Inr (s', own')"
      and g: "own' 1 = own1 1 + n"
      and h: "handles s' = handles s1"
      and o: "objs s' 1 = Some (c\<lparr>ref_counter := ref_counter c + 1 + of_nat n\<rparr>)"
    by auto
  have "detach_loop (Suc n) = [ResetRaw 0 (Some 1), Detach 0] @ detach_loop n"
    by (simp add: detach_loop_def)
  then have "run (detach_loop (Suc n)) (s, own) = Inr (s', own')"
    using r1 r by (simp only: run_append bind_Inr)
  with g g1 h h1' o show ?case by (auto simp: algebra_simps)
qed

lemma detach_loop_observe:
  "map_sum id (observe 1) (run (NewObj 1 # Default 0 # detach_loop n) init) =
     Inr (Some (n mod 2 ^ 64), Some (n mod 2 ^ 32), 0, n)"
proof -
  obtain s0 where r0: "run [NewObj 1, Default 0] init = Inr (s0, \<lambda>_. 0)"
    and h0: "handles s0 = [(0, None)]" and o0: "objs s0 1 = Some \<lparr>ref_counter = 0\<rparr>"
    by (simp add: init_def op_defs)
  have m0: "map_of (handles s0) 0 = Some None" by (simp add: h0)
  from detach_loop_run [OF m0 o0, of n "\<lambda>_. 0"] obtain s' own'
    where r: "run (detach_loop n) (s0, \<lambda>_. 0) = Inr (s', own')"
      and g: "own' 1 = n"
      and h: "handles s' = handles s0"
      and o: "objs s' 1 = Some (\<lparr>ref_counter = of_nat n\<rparr>)"
    by auto
  have "NewObj 1 # Default 0 # detach_loop n = [NewObj 1, Default 0] @ detach_loop n"
    by simp
  then have full: "run (NewObj 1 # Default 0 # detach_loop n) init = Inr (s', own')"
    using r0 r by (simp only: run_append bind_Inr)
  have u: "unat (of_nat n :: size_t) = n mod 2 ^ 64"
    by (simp only: unat_of_nat) simp
  have "unat (ucast (of_nat n :: size_t) :: uint) = (n mod 2 ^ 64) mod 2 ^ 32"
    by (simp add: unsigned_ucast_eq take_bit_eq_mod u)
  also have "\<dots> = n mod 2 ^ 32"
    by (rule mod_mod_cancel) (simp add: le_imp_power_dvd)
  finally have v: "unat (ucast (of_nat n :: size_t) :: uint) = n mod 2 ^ 32" .
  have "map_sum id (observe 1) (Inr (s', own')) =
          Inr (Some (n mod 2 ^ 64), Some (n mod 2 ^ 32), 0, n)"
    using o g u v
    by (simp add: observe_def count_of_def use_count_of_def use_count_def holders_def h h0)
  with full show ?thesis by (simp only:)
qed

subsection \<open>Objects die by release only\<close>

lemma extends_refl: "extends t t"
  by (simp add: extends_def)

lemma extends_trans:
  assumes "extends t t'" and "extends t' t''"
  shows "extends t t''"
proof -
  from assms(1) obtain e1 where t1: "trace t' = trace t @ e1"
    and d1: "\<forall>a. live t a \<and> \<not> live t' a \<longrightarrow> Release a \<in> set e1"
    by (auto simp: extends_def)
  from assms(2) obtain e2 where t2: "trace t'' = trace t' @ e2"
    and d2: "\<forall>a. live t' a \<and> \<not> live t'' a \<longrightarrow> Release a \<in> set e2"
    by (auto simp: extends_def)
  have "trace t'' = trace t @ (e1 @ e2)" by (simp add: t1 t2)
  moreover have "\<forall>a. live t a \<and> \<not> live t'' a \<longrightarrow> Release a \<in> set (e1 @ e2)"
    using d1 d2 by auto
  ultimately show ?thesis unfolding extends_def by blast
qed

lemma extends_frame:
  assumes "trace t' = trace t" and "objs t' = objs t"
  shows "extends t t'"
  using assms by (auto simp: extends_def live_def)


lemma extends_release:
  assumes "intrusive_ptr_release a t = Inr t'"
  shows "extends t t'"
  using assms
  by (auto simp: intrusive_ptr_release_def fetch_sub_def extends_def live_def
      split: option.splits if_splits)

lemma extends_dtor: "dtor p t = Inr t' \<Longrightarrow> extends t t'"
  by (auto simp: dtor_def extends_refl extends_release split: if_splits)

lemma extends_store: "extends t (store h p t)"
  by (simp add: extends_frame)





lemma extends_swap_and_destroy: "swap_and_destroy this (tmp, t) = Inr t' \<Longrightarrow> extends t t'"
  by (auto simp: swap_and_destroy_def swap_tmp_def bind_eq_Inr
      intro: extends_trans [OF extends_store extends_dtor])

lemma extends_tmp:
  assumes "extends t (snd ts)" and "swap_and_destroy this ts = Inr t'"
  shows "extends t t'"
  using assms extends_swap_and_destroy [of this "fst ts" "snd ts" t']
  by (auto intro: extends_trans)




subsection \<open>The building blocks return on live pointees\<close>

lemma add_ref_run:
  assumes "live s a"
  shows "\<exists>s'. intrusive_ptr_add_ref a s = Inr s' \<and> handles s' = handles s \<and>
           trace s' = trace s @ [AddRef a] \<and> (\<forall>b. live s' b = live s b) \<and>
           (\<forall>b. count_at s' b = count_at s b + ind (Some a) b)"
  using assms
  by (auto simp: intrusive_ptr_add_ref_def fetch_add_def live_def count_at_def ind_def)

lemma release_run:
  assumes "live s a"
  shows "\<exists>s'. intrusive_ptr_release a s = Inr s' \<and> handles s' = handles s \<and>
           trace s' = trace s @ [Release a] \<and>
           (\<forall>b. count_at s' b = count_at s b - ind (Some a) b)"
  using assms
  by (auto simp: intrusive_ptr_release_def fetch_sub_def delete_obj_def live_def count_at_def
      ind_def)

lemma ctor_raw_run:
  assumes "\<forall>a. p = Some a \<and> f \<longrightarrow> live s a"
  shows "\<exists>s'. ctor_raw p f s = Inr (p, s') \<and> handles s' = handles s \<and>
           trace s' = trace s @ add_ref_calls p f \<and> (\<forall>b. live s' b = live s b) \<and>
           (\<forall>b. count_at s' b = count_at s b + (if f then ind p b else 0))"
proof (cases "p \<noteq> None \<and> f")
  case True
  then obtain a where a: "p = Some a" and f by auto
  with assms have "live s a" by simp
  from add_ref_run [OF this] a \<open>f\<close> show ?thesis
    by (auto simp: ctor_raw_def add_ref_calls_def)
next
  case False
  then show ?thesis by (auto simp: ctor_raw_def add_ref_calls_def ind_def)
qed

lemma dtor_run:
  assumes "\<forall>a. p = Some a \<longrightarrow> live s a"
  shows "\<exists>s'. dtor p s = Inr s' \<and> handles s' = handles s \<and>
           trace s' = trace s @ release_calls p \<and>
           (\<forall>b. count_at s' b = count_at s b - ind p b)"
proof (cases p)
  case None
  then show ?thesis by (simp add: dtor_def release_calls_def ind_def)
next
  case (Some a)
  with assms have "live s a" by simp
  from release_run [OF this] Some show ?thesis by (auto simp: dtor_def release_calls_def)
qed

lemma live_store [simp]: "live (store h p s) a = live s a"
  by (simp add: live_def)

lemma swap_and_destroy_run:
  assumes "map_of (handles s) this = Some old" and "\<forall>a. old = Some a \<longrightarrow> live s a"
  shows "\<exists>s'. swap_and_destroy this (tmp, s) = Inr s' \<and>
           handles s' = AList.update this tmp (handles s) \<and>
           trace s' = trace s @ release_calls old \<and>
           (\<forall>b. count_at s' b = count_at s b - ind old b)"
proof -
  from assms(2) have "\<forall>a. old = Some a \<longrightarrow> live (store this tmp s) a" by simp
  from dtor_run [OF this] assms(1) show ?thesis
    by (auto simp: swap_and_destroy_def swap_tmp_def lookup_def)
qed

section \<open>The claims\<close>

text \<open>
  Claim C1, as amended. After any run from the empty store that ends without error,
  the counter of every live object equals, modulo \<open>2 ^ 64\<close> (the width of the
  \<^verbatim>\<open>size_t\<close> counter), the number of handles that hold its address plus the number of
  references the caller holds through raw pointers (detached and not yet released or
  adopted); \<^verbatim>\<open>use_count()\<close> reports that number modulo \<open>2 ^ 32\<close>. In particular the
  counter is exactly that number whenever the number is below \<open>2 ^ 64\<close>.
\<close>

theorem count_is_outstanding_mod:
  assumes "run xs init = Inr (s, own)" and "objs s a = Some c"
  shows "unat (ref_counter c) = (holders s a + own a) mod 2 ^ 64 \<and>
         unat (use_count c) = (holders s a + own a) mod 2 ^ 32 \<and>
         (holders s a + own a < 2 ^ 64 \<longrightarrow> unat (ref_counter c) = holders s a + own a)"
proof -
  from run_accounted [OF assms(1) accounted_init] have "accounted (s, own)" .
  from accounted_count [OF this assms(2)] have c: "ref_counter c = of_nat (holders s a + own a)" .
  have 1: "unat (ref_counter c) = (holders s a + own a) mod 2 ^ 64"
    unfolding c by (simp only: unat_of_nat) simp
  have "unat (use_count c) = unat (ref_counter c) mod 2 ^ 32"
    by (simp add: use_count_def unsigned_ucast_eq take_bit_eq_mod)
  also have "\<dots> = (holders s a + own a) mod 2 ^ 32"
    unfolding 1 by (rule mod_mod_cancel) (simp add: le_imp_power_dvd)
  finally show ?thesis using 1 by simp
qed

theorem count_is_outstanding_mod_witness:
  "run scenario init = Inr scenario_final \<and>
   objs (fst scenario_final) 1 = Some \<lparr>ref_counter = 1\<rparr> \<and>
   holders (fst scenario_final) 1 = 0 \<and> snd scenario_final 1 = 1 \<and>
   unat (ref_counter \<lparr>ref_counter = 1\<rparr>) = 1 \<and>
   unat (use_count \<lparr>ref_counter = 1\<rparr>) = 1"
proof -
  have r: "run scenario init = Inr (fst scenario_final, snd scenario_final)"
    by (simp add: scenario_run)
  have o: "objs (fst scenario_final) 1 = Some \<lparr>ref_counter = 1\<rparr>"
    by (simp add: scenario_final_def)
  have k: "holders (fst scenario_final) 1 = 0" "snd scenario_final 1 = 1"
    by (simp_all add: scenario_final_def holders_def)
  from count_is_outstanding_mod [OF r o] r o k show ?thesis by simp
qed

text \<open>
  Claim C1 as stated fails. After \<open>2 ^ 32\<close> rounds of reset-with-acquisition and
  detach there are no holding handles and \<open>2 ^ 32\<close> detached references, the counter
  is \<open>2 ^ 32\<close> and \<^verbatim>\<open>use_count()\<close> reads 0; after \<open>2 ^ 64\<close> rounds there are
  \<open>2 ^ 64\<close> detached references and the counter itself is 0. (Observed are the
  counter, \<^verbatim>\<open>use_count()\<close>, the number of holding handles and the number of the
  caller's raw references.)
\<close>

theorem count_wraps_counterexample:
  "map_sum id (observe 1) (run (NewObj 1 # Default 0 # detach_loop (2 ^ 32)) init) =
     Inr (Some (2 ^ 32), Some 0, 0, 2 ^ 32) \<and>
   map_sum id (observe 1) (run (NewObj 1 # Default 0 # detach_loop (2 ^ 64)) init) =
     Inr (Some 0, Some 0, 0, 2 ^ 64)"
proof -
  have a: "(2::nat) ^ 32 mod 2 ^ 64 = 2 ^ 32" and b: "(2::nat) ^ 32 mod 2 ^ 32 = 0"
    and c: "(2::nat) ^ 64 mod 2 ^ 64 = 0" and d: "(2::nat) ^ 64 mod 2 ^ 32 = 0"
    by simp_all
  from detach_loop_observe [of "2 ^ 32"] detach_loop_observe [of "2 ^ 64"]
  show ?thesis by (simp only: a b c d)
qed




text \<open>
  Claim C3. Constructing a handle at a fresh location \<open>h\<close> from \<open>rawPtr\<close> and
  \<open>acquire\<close> (the pointee live wherever it is acquired) returns; the handle stores
  \<open>rawPtr\<close>; \<^verbatim>\<open>intrusive_ptr_add_ref\<close> is called once, on the pointee, when \<open>rawPtr\<close> is
  non-null and \<open>acquire\<close> is true, and not at all otherwise, in which case no object
  changes.
\<close>

theorem ctor_raw_contract:
  assumes "map_of (handles s) h = None" and "\<forall>a. rawPtr = Some a \<and> acquire \<longrightarrow> live s a"
  shows "\<exists>s'. exec (FromRaw h rawPtr acquire) s = Inr s' \<and>
           get h s' = Inr rawPtr \<and>
           trace s' = trace s @ add_ref_calls rawPtr acquire \<and>
           (\<forall>a. count_at s' a = count_at s a + (if acquire then ind rawPtr a else 0)) \<and>
           (\<forall>a. live s' a = live s a) \<and>
           (\<not> (rawPtr \<noteq> None \<and> acquire) \<longrightarrow> objs s' = objs s)"
proof (cases "rawPtr \<noteq> None \<and> acquire")
  case True
  then obtain a where a: "rawPtr = Some a" and acq: acquire by auto
  with assms(2) obtain c where c: "objs s a = Some c" by (auto simp: live_def)
  show ?thesis
    using assms(1) a acq c
    by (simp add: op_defs get_def count_at_def ind_def live_def map_of_update
        add_ref_calls_def)
next
  case False
  then show ?thesis
    using assms(1)
    by (auto simp: op_defs get_def count_at_def ind_def live_def map_of_update
        add_ref_calls_def)
qed

theorem ctor_raw_contract_witness:
  "map_of (handles sole_owner) 1 = None \<and> live sole_owner 1 \<and>
   (\<exists>s'. exec (FromRaw 1 (Some 1) True) sole_owner = Inr s' \<and> get 1 s' = Inr (Some 1) \<and>
      trace s' = [AddRef 1] \<and> count_at s' 1 = 2) \<and>
   (\<exists>s'. exec (FromRaw 1 (Some 1) False) sole_owner = Inr s' \<and> get 1 s' = Inr (Some 1) \<and>
      trace s' = [] \<and> count_at s' 1 = 1)"
proof -
  have m: "map_of (handles sole_owner) 1 = None" by (simp add: sole_owner_def)
  have l: "live sole_owner 1" by (simp add: sole_owner_def live_def)
  have c: "count_at sole_owner 1 = 1" by (simp add: sole_owner_def count_at_def)
  have t: "trace sole_owner = []" by (simp add: sole_owner_def)
  have p: "\<forall>a. Some (1::nat) = Some a \<and> b \<longrightarrow> live sole_owner a" for b using l by simp
  from ctor_raw_contract [OF m p, of True] ctor_raw_contract [OF m p, of False] m l c t
  show ?thesis by (auto simp: ind_def add_ref_calls_def)
qed

text \<open>
  Claim C4, as amended. For a handle that holds \<open>ptr\<close> (its pointee live) and a raw
  pointer \<open>r\<close> (its pointee live): \<^verbatim>\<open>reset()\<close> releases the held reference, if any, and
  leaves the handle null; \<^verbatim>\<open>reset(r)\<close> with \<open>r\<close> different from \<open>ptr\<close> calls
  \<^verbatim>\<open>intrusive_ptr_add_ref\<close> on \<open>r\<close> when non-null, stores \<open>r\<close> and then releases the
  reference held before; \<^verbatim>\<open>reset(r)\<close> with \<open>r\<close> equal to \<open>ptr\<close> changes nothing;
  \<^verbatim>\<open>reset(r, acquire)\<close> stores \<open>r\<close> and releases the reference held before, after
  calling \<^verbatim>\<open>intrusive_ptr_add_ref\<close> exactly when \<open>r\<close> is non-null and \<open>acquire\<close> is true.
\<close>

theorem reset_contract:
  assumes "lookup this s = Inr ptr" and "\<forall>a. ptr = Some a \<longrightarrow> live s a"
    and "\<forall>a. r = Some a \<longrightarrow> live s a"
  shows "(\<exists>s'. reset this s = Inr s' \<and> get this s' = Inr None \<and>
            trace s' = trace s @ release_calls ptr \<and>
            (\<forall>a. count_at s' a = count_at s a - ind ptr a)) \<and>
         (ptr \<noteq> r \<longrightarrow>
            (\<exists>s'. reset_raw this r s = Inr s' \<and> get this s' = Inr r \<and>
               trace s' = trace s @ add_ref_calls r True @ release_calls ptr \<and>
               (\<forall>a. count_at s' a = count_at s a + ind r a - ind ptr a))) \<and>
         (ptr = r \<longrightarrow> reset_raw this r s = Inr s) \<and>
         (\<exists>s'. reset_raw_add_ref this r acquire s = Inr s' \<and> get this s' = Inr r \<and>
            trace s' = trace s @ add_ref_calls r acquire @ release_calls ptr \<and>
            (\<forall>a. count_at s' a = count_at s a + (if acquire then ind r a else 0) - ind ptr a))"
proof -
  from assms(1) have m: "map_of (handles s) this = Some ptr" by (simp add: lookup_eq_Inr)
  have tmp: "\<exists>s'. bind (ctor_raw r f s) (swap_and_destroy this) = Inr s' \<and>
               get this s' = Inr r \<and>
               trace s' = trace s @ add_ref_calls r f @ release_calls ptr \<and>
               (\<forall>a. count_at s' a = count_at s a + (if f then ind r a else 0) - ind ptr a)" for f
  proof -
    from assms(3) have "\<forall>a. r = Some a \<and> f \<longrightarrow> live s a" by simp
    from ctor_raw_run [OF this] obtain s1 where c: "ctor_raw r f s = Inr (r, s1)"
      and h1: "handles s1 = handles s" and t1: "trace s1 = trace s @ add_ref_calls r f"
      and l1: "\<forall>b. live s1 b = live s b"
      and c1: "\<forall>b. count_at s1 b = count_at s b + (if f then ind r b else 0)"
      by blast
    from m h1 have m1: "map_of (handles s1) this = Some ptr" by simp
    from assms(2) l1 have "\<forall>a. ptr = Some a \<longrightarrow> live s1 a" by simp
    from swap_and_destroy_run [OF m1 this, of r] obtain s'
      where d: "swap_and_destroy this (r, s1) = Inr s'"
        and h: "handles s' = AList.update this r (handles s1)"
        and t: "trace s' = trace s1 @ release_calls ptr"
        and c': "\<forall>b. count_at s' b = count_at s1 b - ind ptr b"
      by blast
    show ?thesis
      by (simp add: c d h t t1 c' c1 get_def lookup_def map_of_update)
  qed
  have A: "\<exists>s'. reset this s = Inr s' \<and> get this s' = Inr None \<and>
            trace s' = trace s @ release_calls ptr \<and>
            (\<forall>a. count_at s' a = count_at s a - ind ptr a)"
  proof (cases ptr)
    case None
    with assms(1) show ?thesis by (simp add: reset_def get_def release_calls_def ind_def)
  next
    case (Some a)
    from swap_and_destroy_run [OF m assms(2), of None] Some assms(1) show ?thesis
      by (auto simp: reset_def get_def lookup_def map_of_update)
  qed
  have B: "ptr \<noteq> r \<longrightarrow>
            (\<exists>s'. reset_raw this r s = Inr s' \<and> get this s' = Inr r \<and>
               trace s' = trace s @ add_ref_calls r True @ release_calls ptr \<and>
               (\<forall>a. count_at s' a = count_at s a + ind r a - ind ptr a))"
    using tmp [of True] assms(1) by (simp add: reset_raw_def)
  have C: "ptr = r \<longrightarrow> reset_raw this r s = Inr s"
    using assms(1) by (simp add: reset_raw_def)
  have D: "\<exists>s'. reset_raw_add_ref this r acquire s = Inr s' \<and> get this s' = Inr r \<and>
            trace s' = trace s @ add_ref_calls r acquire @ release_calls ptr \<and>
            (\<forall>a. count_at s' a = count_at s a + (if acquire then ind r a else 0) - ind ptr a)"
    using tmp [of acquire] assms(1) by (simp add: reset_raw_add_ref_def)
  from A B C D show ?thesis by blast
qed

theorem reset_contract_witness:
  "lookup 0 two_owners = Inr (Some 1) \<and> live two_owners 1 \<and> live two_owners 2 \<and>
   (\<exists>s'. reset 0 two_owners = Inr s' \<and> get 0 s' = Inr None \<and> trace s' = [Release 1] \<and>
      count_at s' 1 = 1) \<and>
   (\<exists>s'. reset_raw 0 (Some 2) two_owners = Inr s' \<and> get 0 s' = Inr (Some 2) \<and>
      trace s' = [AddRef 2, Release 1] \<and> count_at s' 1 = 1 \<and> count_at s' 2 = 1) \<and>
   reset_raw 0 (Some 1) two_owners = Inr two_owners \<and>
   (\<exists>s'. reset_raw_add_ref 0 (Some 2) False two_owners = Inr s' \<and> get 0 s' = Inr (Some 2) \<and>
      trace s' = [Release 1] \<and> count_at s' 1 = 1 \<and> count_at s' 2 = 0)"
proof -
  have l: "lookup 0 two_owners = Inr (Some 1)" by (simp add: two_owners_def lookup_def)
  have l1: "live two_owners 1" and l2: "live two_owners 2"
    by (simp_all add: two_owners_def live_def)
  have p1: "\<forall>a. Some (1::nat) = Some a \<longrightarrow> live two_owners a" using l1 by simp
  have p2: "\<forall>a. Some (2::nat) = Some a \<longrightarrow> live two_owners a" using l2 by simp
  have c: "count_at two_owners 1 = 2" "count_at two_owners 2 = 0" "trace two_owners = []"
    by (simp_all add: two_owners_def count_at_def)
  note A = reset_contract [OF l p1 p2, of False] and B = reset_contract [OF l p1 p1, of True]
  from A obtain s1 where "reset 0 two_owners = Inr s1" "get 0 s1 = Inr None"
    "trace s1 = trace two_owners @ release_calls (Some 1)"
    "\<forall>a. count_at s1 a = count_at two_owners a - ind (Some 1) a"
    by blast
  then have 1: "\<exists>s'. reset 0 two_owners = Inr s' \<and> get 0 s' = Inr None \<and>
      trace s' = [Release 1] \<and> count_at s' 1 = 1"
    using c by (simp add: ind_def release_calls_def)
  from A obtain s2 where "reset_raw 0 (Some 2) two_owners = Inr s2" "get 0 s2 = Inr (Some 2)"
    "trace s2 = trace two_owners @ add_ref_calls (Some 2) True @ release_calls (Some 1)"
    "\<forall>a. count_at s2 a = count_at two_owners a + ind (Some 2) a - ind (Some 1) a"
    by auto
  then have 2: "\<exists>s'. reset_raw 0 (Some 2) two_owners = Inr s' \<and> get 0 s' = Inr (Some 2) \<and>
      trace s' = [AddRef 2, Release 1] \<and> count_at s' 1 = 1 \<and> count_at s' 2 = 1"
    using c by (simp add: ind_def release_calls_def add_ref_calls_def)
  from B have 3: "reset_raw 0 (Some 1) two_owners = Inr two_owners" by simp
  from A obtain s4 where "reset_raw_add_ref 0 (Some 2) False two_owners = Inr s4"
    "get 0 s4 = Inr (Some 2)"
    "trace s4 = trace two_owners @ add_ref_calls (Some 2) False @ release_calls (Some 1)"
    "\<forall>a. count_at s4 a = count_at two_owners a + (if False then ind (Some 2) a else 0)
        - ind (Some 1) a"
    by blast
  then have 4: "\<exists>s'. reset_raw_add_ref 0 (Some 2) False two_owners = Inr s' \<and>
      get 0 s' = Inr (Some 2) \<and> trace s' = [Release 1] \<and> count_at s' 1 = 1 \<and>
      count_at s' 2 = 0"
    using c by (simp add: ind_def release_calls_def add_ref_calls_def)
  from 1 2 3 4 l l1 l2 show ?thesis by blast
qed

text \<open>
  Claim C4 as stated fails where \<open>r\<close> is the pointer the handle already holds:
  \<^verbatim>\<open>reset(r)\<close> then logs no call at all, neither the release of the held reference
  nor an \<^verbatim>\<open>intrusive_ptr_add_ref\<close> on \<open>r\<close>.
\<close>

theorem reset_same_pointer_counterexample:
  "get 0 sole_owner = Inr (Some 1) \<and>
   map_sum id trace (reset_raw 0 (Some 1) sole_owner) = Inr []"
  by (simp add: sole_owner_def get_def reset_raw_def lookup_def)

text \<open>
  Claim C5. Copy-assigning or move-assigning a handle to itself returns the store
  unchanged: the handle holds the same pointer, no counter changes, nothing is logged.
\<close>

theorem self_assignment_is_noop:
  assumes "lookup h s = Inr p"
  shows "assign_copy h h s = Inr s \<and> assign_move h h s = Inr s"
  using assms by (simp add: assign_copy_def assign_move_def)

theorem self_assignment_is_noop_witness:
  "lookup 0 sole_owner = Inr (Some 1) \<and> count_of sole_owner 1 = Some 1 \<and>
   assign_copy 0 0 sole_owner = Inr sole_owner \<and> assign_move 0 0 sole_owner = Inr sole_owner"
proof -
  have l: "lookup 0 sole_owner = Inr (Some 1)" by (simp add: sole_owner_def lookup_def)
  have c: "count_of sole_owner 1 = Some 1" by (simp add: sole_owner_def count_of_def)
  from self_assignment_is_noop [OF l] l c show ?thesis by simp
qed

text \<open>
  Claim C6. With \<^verbatim>\<open>assert\<close> active, \<^verbatim>\<open>operator*\<close> and \<^verbatim>\<open>operator->\<close> on a null handle
  fail the assertion; on a handle that holds \<open>a\<close> they return the pointee and the
  stored pointer, and the store is unchanged.
\<close>

theorem dereference_contract:
  assumes "lookup h s = Inr p"
  shows "(p = None \<longrightarrow> deref h s = Inl AssertionFailed \<and> arrow h s = Inl AssertionFailed) \<and>
         (\<forall>a. p = Some a \<longrightarrow> deref h s = Inr (a, s) \<and> arrow h s = Inr (Some a, s))"
  using assms by (auto simp: deref_def arrow_def)

theorem dereference_contract_witness:
  "lookup 2 two_owners = Inr None \<and> deref 2 two_owners = Inl AssertionFailed \<and>
   arrow 2 two_owners = Inl AssertionFailed \<and>
   lookup 0 two_owners = Inr (Some 1) \<and> deref 0 two_owners = Inr (1, two_owners) \<and>
   arrow 0 two_owners = Inr (Some 1, two_owners)"
proof -
  have l2: "lookup 2 two_owners = Inr None" and l0: "lookup 0 two_owners = Inr (Some 1)"
    by (simp_all add: two_owners_def lookup_def)
  from dereference_contract [OF l2] dereference_contract [OF l0] l0 l2 show ?thesis by simp
qed

text \<open>
  Claim C7. \<^verbatim>\<open>detach()\<close> on a handle that holds \<open>a\<close> returns \<open>a\<close>, leaves the handle
  null, logs no call and changes no object; constructing a handle at a fresh location
  from the returned pointer with \<^verbatim>\<open>add_ref\<close> false then gives a handle that holds \<open>a\<close>,
  again with no call logged and the counter of \<open>a\<close> as before the detach.
\<close>

theorem detach_then_adopt:
  assumes "lookup h s = Inr (Some a)" and "objs s a = Some c" and "map_of (handles s) h2 = None"
  shows "\<exists>s1 s2. detach h s = Inr (Some a, s1) \<and> get h s1 = Inr None \<and>
           trace s1 = trace s \<and> objs s1 = objs s \<and>
           exec (FromRaw h2 (Some a) False) s1 = Inr s2 \<and>
           get h2 s2 = Inr (Some a) \<and> get h s2 = Inr None \<and>
           trace s2 = trace s \<and> objs s2 = objs s \<and>
           count_of s2 a = Some (unat (ref_counter c))"
proof -
  from assms(1) have m: "map_of (handles s) h = Some (Some a)" by (simp add: lookup_eq_Inr)
  with assms(3) have ne: "h2 \<noteq> h" by auto
  show ?thesis
    using assms m ne
    by (simp add: detach_def ctor_raw_def place_def get_def lookup_def map_of_update
        count_of_def)
qed

theorem detach_then_adopt_witness:
  "lookup 0 sole_owner = Inr (Some 1) \<and> objs sole_owner 1 = Some \<lparr>ref_counter = 1\<rparr> \<and>
   map_of (handles sole_owner) 1 = None \<and>
   (\<exists>s1 s2. detach 0 sole_owner = Inr (Some 1, s1) \<and> get 0 s1 = Inr None \<and>
      trace s1 = [] \<and> exec (FromRaw 1 (Some 1) False) s1 = Inr s2 \<and>
      get 1 s2 = Inr (Some 1) \<and> trace s2 = [] \<and> count_of s2 1 = Some 1)"
proof -
  have l: "lookup 0 sole_owner = Inr (Some 1)" by (simp add: sole_owner_def lookup_def)
  have o: "objs sole_owner 1 = Some \<lparr>ref_counter = 1\<rparr>" by (simp add: sole_owner_def)
  have m: "map_of (handles sole_owner) 1 = None" by (simp add: sole_owner_def)
  have t: "trace sole_owner = []" by (simp add: sole_owner_def)
  from detach_then_adopt [OF l o m] obtain s1 s2
    where "detach 0 sole_owner = Inr (Some 1, s1)" "get 0 s1 = Inr None"
      "trace s1 = trace sole_owner" "exec (FromRaw 1 (Some 1) False) s1 = Inr s2"
      "get 1 s2 = Inr (Some 1)" "trace s2 = trace sole_owner"
      "count_of s2 1 = Some (unat (ref_counter \<lparr>ref_counter = (1 :: size_t)\<rparr>))"
    by blast
  with l o m t show ?thesis by auto
qed

text \<open>
  Claim C8. A default-constructed and a copy-constructed counter are 0 whatever the
  source holds: allocating an object and copy-constructing one from a live source give
  a new object of count 0, and the source's count is not touched. Copy-assignment
  writes no counter either, but it does not return: its body ends without the
  \<^verbatim>\<open>return\<close> statement that its reference return type requires, so assigning a live
  source to a live target is undefined behaviour.
\<close>

theorem counter_construction_and_assignment:
  assumes "objs s src = Some v" and "objs s a = Some c" and "objs s b = None"
  shows "ref_counter intrusive_ref_counter_default = 0 \<and>
         ref_counter (intrusive_ref_counter_copy v) = 0 \<and>
         (\<exists>s'. exec (NewObj b) s = Inr s' \<and> count_of s' b = Some 0) \<and>
         (\<exists>s'. exec (CopyObj b src) s = Inr s' \<and> count_of s' b = Some 0 \<and>
            count_of s' src = count_of s src) \<and>
         intrusive_ref_counter_assign c v = Inl MissingReturn \<and>
         exec (AssignObj a src) s = Inl MissingReturn"
proof -
  from assms(1,3) have ne: "b \<noteq> src" by auto
  show ?thesis
    using assms ne
    by (simp add: intrusive_ref_counter_default_def intrusive_ref_counter_copy_def
        intrusive_ref_counter_assign_def new_obj_def read_obj_def count_of_def)
qed

theorem counter_construction_and_assignment_witness:
  "objs two_owners 1 = Some \<lparr>ref_counter = 2\<rparr> \<and> objs two_owners 2 = Some \<lparr>ref_counter = 0\<rparr> \<and>
   objs two_owners 3 = None \<and>
   ref_counter (intrusive_ref_counter_copy \<lparr>ref_counter = 2\<rparr>) = 0 \<and>
   (\<exists>s'. exec (NewObj 3) two_owners = Inr s' \<and> count_of s' 3 = Some 0) \<and>
   (\<exists>s'. exec (CopyObj 3 1) two_owners = Inr s' \<and> count_of s' 3 = Some 0 \<and>
      count_of s' 1 = Some 2) \<and>
   intrusive_ref_counter_assign \<lparr>ref_counter = 0\<rparr> \<lparr>ref_counter = 2\<rparr> = Inl MissingReturn \<and>
   exec (AssignObj 2 1) two_owners = Inl MissingReturn"
proof -
  have o: "objs two_owners 1 = Some \<lparr>ref_counter = 2\<rparr>"
    "objs two_owners 2 = Some \<lparr>ref_counter = 0\<rparr>" "objs two_owners 3 = None"
    by (simp_all add: two_owners_def)
  have c: "count_of two_owners 1 = Some 2" "count_of two_owners 2 = Some 0"
    by (simp_all add: two_owners_def count_of_def)
  from counter_construction_and_assignment [OF o] o c show ?thesis
    by (simp del: exec.simps)
qed

text \<open>
  Claim C9, the part on equality: \<^verbatim>\<open>==\<close> and \<^verbatim>\<open>!=\<close> between two handles, between a
  handle and a raw pointer, and between a raw pointer and a handle compare the values of
  \<^verbatim>\<open>get()\<close>, null included. (\<^verbatim>\<open>operator<\<close> has the body
  \<^verbatim>\<open>return std::less(a.get(), b.get());\<close>, which names the class template
  \<^verbatim>\<open>std::less\<close> with two constructor arguments instead of calling a \<^verbatim>\<open>std::less\<close>
  object on them; it has no instantiation and is not part of the model.)
\<close>

theorem equality_is_pointer_identity:
  assumes "get a s = Inr p" and "get b s = Inr q"
  shows "op_eq a b s = Inr (p = q) \<and> op_ne a b s = Inr (p \<noteq> q) \<and>
         op_eq_raw a r s = Inr (p = r) \<and> op_ne_raw a r s = Inr (p \<noteq> r) \<and>
         raw_op_eq r b s = Inr (r = q) \<and> raw_op_ne r b s = Inr (r \<noteq> q)"
  using assms
  by (simp add: op_eq_def op_ne_def op_eq_raw_def op_ne_raw_def raw_op_eq_def raw_op_ne_def)

theorem equality_is_pointer_identity_witness:
  "get 0 two_owners = Inr (Some 1) \<and> get 2 two_owners = Inr None \<and>
   op_eq 0 2 two_owners = Inr False \<and> op_ne 0 2 two_owners = Inr True \<and>
   op_eq_raw 0 None two_owners = Inr False \<and> op_ne_raw 0 None two_owners = Inr True \<and>
   raw_op_eq None 2 two_owners = Inr True \<and> raw_op_ne None 2 two_owners = Inr False"
proof -
  have g: "get 0 two_owners = Inr (Some 1)" "get 2 two_owners = Inr None"
    by (simp_all add: two_owners_def get_def lookup_def)
  from equality_is_pointer_identity [OF g, of None] g show ?thesis by simp
qed

text \<open>
  Claim C10. \<^verbatim>\<open>reset(r)\<close> and \<^verbatim>\<open>operator=(T* r)\<close> with \<open>r\<close> the pointer the handle
  already holds return the store unchanged: no call is logged, no counter changes and
  no object is destroyed, also when the handle holds the only reference.
\<close>

theorem same_pointer_is_noop:
  assumes "lookup h s = Inr p"
  shows "reset_raw h p s = Inr s \<and> assign_raw h p s = Inr s"
  using assms by (simp add: reset_raw_def assign_raw_def)

theorem same_pointer_is_noop_witness:
  "lookup 0 sole_owner = Inr (Some 1) \<and> count_of sole_owner 1 = Some 1 \<and>
   holders sole_owner 1 = 1 \<and>
   reset_raw 0 (Some 1) sole_owner = Inr sole_owner \<and>
   assign_raw 0 (Some 1) sole_owner = Inr sole_owner"
proof -
  have l: "lookup 0 sole_owner = Inr (Some 1)" by (simp add: sole_owner_def lookup_def)
  have c: "count_of sole_owner 1 = Some 1" "holders sole_owner 1 = 1"
    by (simp_all add: sole_owner_def count_of_def holders_def)
  from same_pointer_is_noop [OF l] l c show ?thesis by simp
qed

end
